theory Spec2Isabelle
  imports Main "HOL-Library.Sublist"
begin

section \<open>DocFS: sandboxed read-only file system tools\<close>

text \<open>
  A shallow embedding of the traversal, sandboxing, caching, search and ranged-read core
  of DocFS (\<^verbatim>\<open>src/utils/filesystem.ts\<close>, \<^verbatim>\<open>src/utils/cache.ts\<close>,
  \<^verbatim>\<open>src/tools/readFiles.ts\<close>). Every function that throws returns a sum whose left
  summand is the error; every function that touches the file system, the clock or the
  metadata cache takes the state it reads and returns the state it leaves.
\<close>

subsection \<open>The metadata cache (\<^verbatim>\<open>LRUCache\<close>)\<close>

text \<open>
  A JavaScript \<^verbatim>\<open>Map\<close> iterates in insertion order, and the cache relies on that order,
  so the map is an association list: the first pair is the oldest insertion.
  \<^verbatim>\<open>Map.set\<close> on a present key replaces the value in place, on an absent key it appends.
\<close>

type_synonym ('k, 'v) jsmap = "('k \<times> 'v) list"

definition Map_get :: "('k, 'v) jsmap \<Rightarrow> 'k \<Rightarrow> 'v option" where
  "Map_get m k = map_of m k"

definition Map_has :: "('k, 'v) jsmap \<Rightarrow> 'k \<Rightarrow> bool" where
  "Map_has m k = (k \<in> set (map fst m))"

definition Map_delete :: "('k, 'v) jsmap \<Rightarrow> 'k \<Rightarrow> ('k, 'v) jsmap" where
  "Map_delete m k = filter (\<lambda>p. fst p \<noteq> k) m"

fun Map_set :: "('k, 'v) jsmap \<Rightarrow> 'k \<Rightarrow> 'v \<Rightarrow> ('k, 'v) jsmap" where
  "Map_set [] k v = [(k, v)]"
| "Map_set (p # ps) k v = (if fst p = k then (k, v) # ps else p # Map_set ps k v)"

definition Map_size :: "('k, 'v) jsmap \<Rightarrow> int" where
  "Map_size m = int (length m)"

text \<open>\<^verbatim>\<open>m.keys().next().value\<close>: the first key, \<^verbatim>\<open>undefined\<close> on an empty map.\<close>

definition Map_firstKey :: "('k, 'v) jsmap \<Rightarrow> 'k option" where
  "Map_firstKey m = (case m of [] \<Rightarrow> None | p # _ \<Rightarrow> Some (fst p))"

record 'v CacheEntry =
  cvalue :: 'v
  expires :: int

text \<open>
  The class \<^verbatim>\<open>LRUCache<T>\<close>: the private map and the two constructor parameters.
  \<^verbatim>\<open>Date.now()\<close> is the argument \<open>now\<close> of each operation (milliseconds, an integer).
\<close>

record ('k, 'v) LRUCache =
  cache :: "('k, 'v CacheEntry) jsmap"
  maxSize :: int
  ttl :: int

definition LRUCache_new :: "int \<Rightarrow> int \<Rightarrow> ('k, 'v) LRUCache" where
  "LRUCache_new n t = \<lparr>cache = [], maxSize = n, ttl = t\<rparr>"

definition LRUCache_get :: "('k, 'v) LRUCache \<Rightarrow> 'k \<Rightarrow> int \<Rightarrow> 'v option \<times> ('k, 'v) LRUCache" where
  "LRUCache_get c key now =
     (case Map_get (cache c) key of
        None \<Rightarrow> (None, c)
      | Some entry \<Rightarrow>
          if now > expires entry then (None, c\<lparr>cache := Map_delete (cache c) key\<rparr>)
          else (Some (cvalue entry),
                c\<lparr>cache := Map_set (Map_delete (cache c) key) key entry\<rparr>))"

definition LRUCache_set :: "('k, 'v) LRUCache \<Rightarrow> 'k \<Rightarrow> 'v \<Rightarrow> int \<Rightarrow> ('k, 'v) LRUCache" where
  "LRUCache_set c key v now =
     (let entry = \<lparr>cvalue = v, expires = now + ttl c\<rparr>;
          m1 = (if Map_has (cache c) key then Map_delete (cache c) key else cache c);
          m2 = Map_set m1 key entry
      in if Map_size m2 > maxSize c
         then (case Map_firstKey m2 of
                 Some firstKey \<Rightarrow> c\<lparr>cache := Map_delete m2 firstKey\<rparr>
               | None \<Rightarrow> c\<lparr>cache := m2\<rparr>)
         else c\<lparr>cache := m2\<rparr>)"

definition LRUCache_clear :: "('k, 'v) LRUCache \<Rightarrow> ('k, 'v) LRUCache" where
  "LRUCache_clear c = c\<lparr>cache := []\<rparr>"

text \<open>A sequence of cache operations, each with the clock reading at which it runs.\<close>

datatype ('k, 'v) cache_op = Get 'k int | Set 'k 'v int

fun cache_step :: "('k, 'v) LRUCache \<Rightarrow> ('k, 'v) cache_op \<Rightarrow> ('k, 'v) LRUCache" where
  "cache_step c (Get k now) = snd (LRUCache_get c k now)"
| "cache_step c (Set k v now) = LRUCache_set c k v now"

definition cache_run :: "('k, 'v) LRUCache \<Rightarrow> ('k, 'v) cache_op list \<Rightarrow> ('k, 'v) LRUCache" where
  "cache_run c ops = foldl cache_step c ops"

text \<open>
  The recency order in the spec's words: every successful get and every set promotes its
  key to most-recently-used. \<open>last_used c n u ops\<close> stamps each key with the number of
  the latest operation that promoted it (\<open>n\<close> operations have run before \<open>ops\<close>, \<open>u\<close> are
  the stamps so far); a larger stamp is a more recent use.
\<close>

fun promotes :: "('k, 'v) LRUCache \<Rightarrow> ('k, 'v) cache_op \<Rightarrow> 'k option" where
  "promotes c (Get k now) = (if fst (LRUCache_get c k now) = None then None else Some k)"
| "promotes c (Set k v now) = Some k"

fun last_used :: "('k, 'v) LRUCache \<Rightarrow> nat \<Rightarrow> ('k \<Rightarrow> nat) \<Rightarrow> ('k, 'v) cache_op list \<Rightarrow> ('k \<Rightarrow> nat)" where
  "last_used c n u [] = u"
| "last_used c n u (x # ops) =
     last_used (cache_step c x) (Suc n)
       (case promotes c x of None \<Rightarrow> u | Some k \<Rightarrow> u(k := Suc n)) ops"

definition keys_of :: "('k, 'v) LRUCache \<Rightarrow> 'k set" where
  "keys_of c = set (map fst (cache c))"

text \<open>
  The invariant of the cache after \<open>n\<close> operations with stamps \<open>u\<close>: the keys are listed in
  strictly increasing order of their stamps, no stamp is from the future, and the size
  is within the capacity.
\<close>

definition lru_inv :: "('k, 'v) LRUCache \<Rightarrow> nat \<Rightarrow> ('k \<Rightarrow> nat) \<Rightarrow> bool" where
  "lru_inv c n u \<longleftrightarrow>
     sorted_wrt (\<lambda>a b. u a < u b) (map fst (cache c)) \<and>
     (\<forall>k \<in> keys_of c. u k \<le> n) \<and>
     0 \<le> maxSize c \<and> Map_size (cache c) \<le> maxSize c"

subsection \<open>Strings and paths (\<^verbatim>\<open>node:path\<close>, POSIX flavour)\<close>

text \<open>\<^verbatim>\<open>s.split(c)\<close> for a one-character separator: never empty, \<^verbatim>\<open>''.split(c)\<close> is \<^verbatim>\<open>['']\<close>.\<close>

fun split_on :: "'a \<Rightarrow> 'a list \<Rightarrow> 'a list list" where
  "split_on c [] = [[]]"
| "split_on c (x # xs) =
     (if x = c then [] # split_on c xs
      else (case split_on c xs of [] \<Rightarrow> [[x]] | l # ls \<Rightarrow> (x # l) # ls))"

text \<open>\<^verbatim>\<open>parts.join(s)\<close>.\<close>

fun join_with :: "'a list \<Rightarrow> 'a list list \<Rightarrow> 'a list" where
  "join_with s [] = []"
| "join_with s [l] = l"
| "join_with s (l # ls) = l @ s @ join_with s ls"

definition startsWith :: "'a list \<Rightarrow> 'a list \<Rightarrow> bool" where
  "startsWith s p = (take (length p) s = p)"

definition sep :: string where
  "sep = ''/''"

text \<open>
  The functions of \<^verbatim>\<open>node:path\<close> the code calls are library code; they are modelled
  after their POSIX implementation. \<open>normalizeString\<close> walks the segments between
  separators, dropping empty and \<^verbatim>\<open>.\<close> segments and resolving \<^verbatim>\<open>..\<close> against the segment
  before it.
\<close>

definition norm_step :: "bool \<Rightarrow> string list \<Rightarrow> string \<Rightarrow> string list" where
  "norm_step allowAboveRoot res seg =
     (if seg = [] \<or> seg = ''.'' then res
      else if seg = ''..'' then
        (if res \<noteq> [] \<and> last res \<noteq> ''..'' then butlast res
         else if allowAboveRoot then res @ [''..''] else res)
      else res @ [seg])"

definition normalizeSegments :: "bool \<Rightarrow> string list \<Rightarrow> string list" where
  "normalizeSegments allowAboveRoot segs = foldl (norm_step allowAboveRoot) [] segs"

definition normalizeString :: "string \<Rightarrow> bool \<Rightarrow> string" where
  "normalizeString p allowAboveRoot =
     join_with ''/'' (normalizeSegments allowAboveRoot (split_on CHR ''/'' p))"

definition isAbsolute :: "string \<Rightarrow> bool" where
  "isAbsolute p = (case p of [] \<Rightarrow> False | c # _ \<Rightarrow> c = CHR ''/'')"

definition normalize :: "string \<Rightarrow> string" where
  "normalize p =
     (if p = [] then ''.''
      else let isAbs = isAbsolute p;
               trailingSeparator = (last p = CHR ''/'');
               q = normalizeString p (\<not> isAbs)
           in if q = [] then (if isAbs then ''/'' else if trailingSeparator then ''./'' else ''.'')
              else let q' = (if trailingSeparator then q @ ''/'' else q)
                   in if isAbs then ''/'' @ q' else q')"

text \<open>
  \<^verbatim>\<open>resolve(...args)\<close> with the working directory \<open>cwd\<close> (an absolute path): the arguments
  are taken from the right until an absolute one is met, then the working directory.
\<close>

fun resolve_gather :: "string \<Rightarrow> string list \<Rightarrow> string" where
  "resolve_gather cwd [] = cwd @ ''/''"
| "resolve_gather cwd (a # rest) =
     (if a = [] then resolve_gather cwd rest
      else if isAbsolute a then a @ ''/''
      else resolve_gather cwd rest @ a @ ''/'')"

definition resolve :: "string \<Rightarrow> string list \<Rightarrow> string" where
  "resolve cwd args = ''/'' @ normalizeString (resolve_gather cwd (rev args)) False"

text \<open>\<^verbatim>\<open>join(a, b)\<close>: the non-empty arguments joined by the separator, normalized.\<close>

definition join :: "string \<Rightarrow> string \<Rightarrow> string" where
  "join a b =
     (let joined = (if a = [] then b else if b = [] then a else a @ ''/'' @ b)
      in if joined = [] then ''.'' else normalize joined)"

text \<open>The segments of a resolved path.\<close>

definition segments :: "string \<Rightarrow> string list" where
  "segments p = filter (\<lambda>s. s \<noteq> []) (split_on CHR ''/'' p)"

fun common_prefix_length :: "'a list \<Rightarrow> 'a list \<Rightarrow> nat" where
  "common_prefix_length (x # xs) (y # ys) = (if x = y then Suc (common_prefix_length xs ys) else 0)"
| "common_prefix_length _ _ = 0"

text \<open>
  \<^verbatim>\<open>relative(from, to)\<close>: both resolved, one \<^verbatim>\<open>..\<close> for every segment of \<open>from\<close> beyond
  the common ancestor, then the segments of \<open>to\<close> beyond it.
\<close>

definition relative :: "string \<Rightarrow> string \<Rightarrow> string \<Rightarrow> string" where
  "relative cwd from to =
     (let f = segments (resolve cwd [from]); t = segments (resolve cwd [to]);
          n = common_prefix_length f t
      in join_with ''/'' (replicate (length f - n) ''..'' @ drop n t))"

definition basename :: "string \<Rightarrow> string" where
  "basename p = (case segments p of [] \<Rightarrow> [] | s # ss \<Rightarrow> last (s # ss))"

text \<open>\<^verbatim>\<open>extname\<close>: from the last dot of the base name, unless that dot opens the name.\<close>

definition extname :: "string \<Rightarrow> string" where
  "extname p =
     (let b = basename p
      in if CHR ''.'' \<notin> set b \<or> b = ''..'' then []
         else let i = length b - Suc (length (takeWhile (\<lambda>c. c \<noteq> CHR ''.'') (rev b)))
              in if i = 0 then [] else drop i b)"

subsection \<open>Errors\<close>

text \<open>
  Every \<^verbatim>\<open>throw new Error(...)\<close> of the code is a constructor; \<open>message\<close> is the text the
  code puts into the error. The names follow the taxonomy of the specification.
\<close>

datatype error =
    OutsideSandbox string
  | NotFound string "string list"
  | IsADirectory string
  | TooLarge int int
  | InvalidRange
  | StatFailure string string
  | ReadFailure string string
  | ReaddirFailure string string
  | MissingPaths
  | NoPaths
  | TooManyPaths
  | TypeError string
  | Raw string

subsection \<open>PathSandbox (\<^verbatim>\<open>validatePathAccess\<close>)\<close>

text \<open>The loop over the roots returns at the first root that admits the path.\<close>

fun validate_loop :: "string \<Rightarrow> string \<Rightarrow> string list \<Rightarrow> string option" where
  "validate_loop cwd normalized [] = None"
| "validate_loop cwd normalized (root # roots) =
     (let normalizedRoot = normalize (resolve cwd [root])
      in if startsWith normalized (normalizedRoot @ sep) \<or> normalized = normalizedRoot
         then Some normalized
         else validate_loop cwd normalized roots)"

definition validatePathAccess :: "string \<Rightarrow> string \<Rightarrow> string list \<Rightarrow> error + string" where
  "validatePathAccess cwd targetPath allowedRoots =
     (let normalized = normalize (resolve cwd [targetPath])
      in case validate_loop cwd normalized allowedRoots of
           Some p \<Rightarrow> Inr p
         | None \<Rightarrow> Inl (OutsideSandbox targetPath))"

text \<open>
  The sandbox in the words of the specification: the path equals the root or is a
  descendant of it, segment by segment.
\<close>

definition within_root :: "string \<Rightarrow> string \<Rightarrow> string \<Rightarrow> bool" where
  "within_root cwd root p = prefix (segments (resolve cwd [root])) (segments (resolve cwd [p]))"

subsection \<open>Error messages\<close>

text \<open>Decimal notation of an integer, as a template literal prints it.\<close>

fun show_nat :: "nat \<Rightarrow> string" where
  "show_nat n =
     (if n < 10 then [''0123456789'' ! n] else show_nat (n div 10) @ [''0123456789'' ! (n mod 10)])"

declare show_nat.simps [simp del]

definition show_int :: "int \<Rightarrow> string" where
  "show_int i = (if i < 0 then ''-'' @ show_nat (nat (- i)) else show_nat (nat i))"

definition quote :: "string \<Rightarrow> string" where
  "quote s = [CHR 0x27] @ s @ [CHR 0x27]"

text \<open>\<^verbatim>\<open>error.message\<close>.\<close>

fun message :: "error \<Rightarrow> string" where
  "message (OutsideSandbox p) = ''Path '' @ quote p @ '' is outside allowed directories''"
| "message (NotFound p roots) =
     ''Path '' @ quote p @ '' not found within allowed roots. '' @
     ''Provide an absolute path or a path relative to one of: '' @ join_with '', '' roots"
| "message (IsADirectory p) = ''Cannot read directory: '' @ p"
| "message (TooLarge actual maxi) =
     ''File too large: '' @ show_int actual @ '' bytes (max: '' @ show_int maxi @ '' bytes)''"
| "message InvalidRange = ''Start line cannot be greater than end line''"
| "message (StatFailure p msg) = ''Failed to get info for '' @ quote p @ '': '' @ msg"
| "message (ReadFailure p msg) = ''Failed to read file '' @ quote p @ '': '' @ msg"
| "message (ReaddirFailure p msg) = ''Failed to read directory '' @ quote p @ '': '' @ msg"
| "message MissingPaths =
     ''Either '' @ [CHR 0x22] @ ''path'' @ [CHR 0x22] @ '' or '' @ [CHR 0x22] @ ''paths'' @ [CHR 0x22] @
     '' parameter is required''"
| "message NoPaths = ''At least one file path is required''"
| "message TooManyPaths = ''Maximum of 10 files can be read at once''"
| "message (TypeError msg) = msg"
| "message (Raw msg) = msg"

subsection \<open>Regular expressions\<close>

text \<open>
  The code builds its regular expressions from text: \<open>escapeRegExp\<close> and the three
  replacements of \<open>matchesPattern\<close>. \<^verbatim>\<open>RegExp\<close> itself is the JavaScript engine; it is
  modelled on the fragment those sources fall into: literal characters, escaped syntax
  characters, \<^verbatim>\<open>.\<close>, \<^verbatim>\<open>.*\<close> and \<^verbatim>\<open>\b\<close>. Characters are compared as single code units;
  with the flag \<^verbatim>\<open>i\<close> the letters \<^verbatim>\<open>a\<close> to \<^verbatim>\<open>z\<close> are compared in upper case.
\<close>

datatype tok = Lit char | AnyChar | AnyStar | WordBoundary

definition backslash :: char where
  "backslash = CHR 0x5C"

definition syntax_chars :: "char list" where
  "syntax_chars = ''^$.*+?()[]{}|'' @ [backslash]"

fun parse_pattern :: "string \<Rightarrow> tok list option" where
  "parse_pattern [] = Some []"
| "parse_pattern [c] =
     (if c = CHR ''.'' then Some [AnyChar]
      else if c \<in> set syntax_chars then None
      else Some [Lit c])"
| "parse_pattern (c # d # rest) =
     (if c = backslash then
        (if d = CHR ''b'' then map_option ((#) WordBoundary) (parse_pattern rest)
         else if d \<in> set syntax_chars \<or> d = CHR ''/'' then map_option ((#) (Lit d)) (parse_pattern rest)
         else None)
      else if c = CHR ''.'' then
        (if d = CHR ''*'' then map_option ((#) AnyStar) (parse_pattern rest)
         else map_option ((#) AnyChar) (parse_pattern (d # rest)))
      else if c \<in> set syntax_chars then None
      else map_option ((#) (Lit c)) (parse_pattern (d # rest)))"

definition lower_letters :: string where
  "lower_letters = ''abcdefghijklmnopqrstuvwxyz''"

definition upper_letters :: string where
  "upper_letters = ''ABCDEFGHIJKLMNOPQRSTUVWXYZ''"

definition toUpperAscii :: "char \<Rightarrow> char" where
  "toUpperAscii c =
     (case map_of (zip lower_letters upper_letters) c of None \<Rightarrow> c | Some u \<Rightarrow> u)"

definition canonicalize :: "bool \<Rightarrow> char \<Rightarrow> char" where
  "canonicalize ignoreCase c = (if ignoreCase then toUpperAscii c else c)"

definition lineTerminator :: "char \<Rightarrow> bool" where
  "lineTerminator c = (c = CHR 0x0A \<or> c = CHR 0x0D)"

definition isWordChar :: "char option \<Rightarrow> bool" where
  "isWordChar x =
     (case x of None \<Rightarrow> False
      | Some c \<Rightarrow> c \<in> set (lower_letters @ upper_letters @ ''0123456789_''))"

definition first_char :: "string \<Rightarrow> char option" where
  "first_char s = (case s of [] \<Rightarrow> None | c # _ \<Rightarrow> Some c)"

text \<open>
  \<open>match_here ic ts prev s\<close>: the pattern \<open>ts\<close> matched at the start of \<open>s\<close>, the character
  before being \<open>prev\<close>; the result is the number of characters the match takes.
  \<^verbatim>\<open>.*\<close> is greedy: it gives characters back only when the rest fails.
\<close>

fun match_here :: "bool \<Rightarrow> tok list \<Rightarrow> char option \<Rightarrow> string \<Rightarrow> nat option" where
  "match_here ic [] prev s = Some 0"
| "match_here ic (Lit c # ts) prev [] = None"
| "match_here ic (Lit c # ts) prev (d # ds) =
     (if canonicalize ic d = canonicalize ic c
      then map_option Suc (match_here ic ts (Some d) ds) else None)"
| "match_here ic (AnyChar # ts) prev [] = None"
| "match_here ic (AnyChar # ts) prev (d # ds) =
     (if lineTerminator d then None else map_option Suc (match_here ic ts (Some d) ds))"
| "match_here ic (AnyStar # ts) prev [] = match_here ic ts prev []"
| "match_here ic (AnyStar # ts) prev (d # ds) =
     (if lineTerminator d then match_here ic ts prev (d # ds)
      else (case match_here ic (AnyStar # ts) (Some d) ds of
              Some n \<Rightarrow> Some (Suc n)
            | None \<Rightarrow> match_here ic ts prev (d # ds)))"
| "match_here ic (WordBoundary # ts) prev s =
     (if isWordChar prev \<noteq> isWordChar (first_char s) then match_here ic ts prev s else None)"

text \<open>
  The search of \<^verbatim>\<open>RegExpBuiltinExec\<close>: the first position from \<open>pos\<close> on where the pattern
  matches; the result is the index where that match ends.
\<close>

fun search_from :: "bool \<Rightarrow> tok list \<Rightarrow> char option \<Rightarrow> string \<Rightarrow> nat \<Rightarrow> nat option" where
  "search_from ic ts prev [] pos = map_option (\<lambda>n. pos + n) (match_here ic ts prev [])"
| "search_from ic ts prev (d # ds) pos =
     (case match_here ic ts prev (d # ds) of
        Some n \<Rightarrow> Some (pos + n)
      | None \<Rightarrow> search_from ic ts (Some d) ds (Suc pos))"

record RegExp =
  re_tokens :: "tok list"
  re_ignoreCase :: bool
  re_global :: bool
  lastIndex :: nat

text \<open>\<^verbatim>\<open>new RegExp(source, flags)\<close>; \<open>None\<close> when the source is outside the fragment.\<close>

definition RegExp_new :: "string \<Rightarrow> string \<Rightarrow> RegExp option" where
  "RegExp_new source flags =
     map_option (\<lambda>ts. \<lparr>re_tokens = ts, re_ignoreCase = (CHR ''i'' \<in> set flags),
                       re_global = (CHR ''g'' \<in> set flags), lastIndex = 0\<rparr>)
       (parse_pattern source)"

text \<open>
  \<^verbatim>\<open>regex.test(s)\<close>. A global expression starts at its \<open>lastIndex\<close> and leaves there the end
  of the match, or 0 when nothing matched; the expression is a mutable object, so the
  call returns it updated.
\<close>

definition RegExp_test :: "RegExp \<Rightarrow> string \<Rightarrow> bool \<times> RegExp" where
  "RegExp_test r s =
     (let start = (if re_global r then lastIndex r else 0)
      in if start > length s then (False, if re_global r then r\<lparr>lastIndex := 0\<rparr> else r)
         else case search_from (re_ignoreCase r) (re_tokens r)
                     (if start = 0 then None else Some (s ! (start - 1))) (drop start s) start of
                None \<Rightarrow> (False, if re_global r then r\<lparr>lastIndex := 0\<rparr> else r)
              | Some e \<Rightarrow> (True, if re_global r then r\<lparr>lastIndex := e\<rparr> else r))"

text \<open>\<open>escapeRegExp\<close>: \<^verbatim>\<open>string.replace(/[.*+?^${}()|[\]\\]/g, '\\$&')\<close>.\<close>

definition escapeRegExp :: "string \<Rightarrow> string" where
  "escapeRegExp s = concat (map (\<lambda>c. if c \<in> set syntax_chars then [backslash, c] else [c]) s)"

text \<open>A global replacement of one character by a text.\<close>

definition replace_char :: "char \<Rightarrow> string \<Rightarrow> string \<Rightarrow> string" where
  "replace_char c by s = concat (map (\<lambda>d. if d = c then by else [d]) s)"

text \<open>
  \<open>matchesPattern\<close>. \<open>engine\<close> stands for the JavaScript engine on the sources the fragment
  above does not cover; it may throw a syntax error.
\<close>

definition glob_source :: "string \<Rightarrow> string" where
  "glob_source pattern =
     replace_char CHR ''?'' ''.'' (replace_char CHR ''*'' ''.*''
       (replace_char CHR ''.'' [backslash, CHR ''.''] pattern))"

definition matchesPattern :: "(string \<Rightarrow> string \<Rightarrow> error + bool) \<Rightarrow> string \<Rightarrow> string \<Rightarrow> error + bool" where
  "matchesPattern engine fileName pattern =
     (case RegExp_new (glob_source pattern) ''i'' of
        Some regex \<Rightarrow> Inr (fst (RegExp_test regex fileName))
      | None \<Rightarrow> engine (glob_source pattern) fileName)"

text \<open>
  The glob of the specification, over the whole name: \<^verbatim>\<open>*\<close> is any run of characters,
  \<^verbatim>\<open>?\<close> any single character, letters compared without case.
\<close>

fun glob_match :: "string \<Rightarrow> string \<Rightarrow> bool" where
  "glob_match [] s = (s = [])"
| "glob_match (p # ps) [] = (p = CHR ''*'' \<and> glob_match ps [])"
| "glob_match (p # ps) (c # cs) =
     (if p = CHR ''*'' then glob_match ps (c # cs) \<or> glob_match (p # ps) cs
      else if p = CHR ''?'' then glob_match ps cs
      else toUpperAscii p = toUpperAscii c \<and> glob_match ps cs)"

subsection \<open>The environment\<close>

text \<open>\<^verbatim>\<open>fs.Stats\<close>, as far as the code reads it; the time is already in ISO form.\<close>

record Stats =
  st_size :: int
  st_mtime :: string
  st_isDirectory :: bool
  st_isFile :: bool

record FileInfo =
  fi_path :: string
  fi_name :: string
  fi_size :: int
  fi_modified :: string
  fi_isDirectory :: bool
  fi_extension :: "string option"

text \<open>The calls into the file system, in the order they are made.\<close>

datatype event = EvStat string | EvReaddir string | EvReadFile string | EvAccess string

text \<open>
  Everything outside the program: the file system, the clock, the working directory and
  the libraries. The file system and the clock answer by the number of calls made so
  far, so their answers may change from one call to the next. A failing call carries
  the message of its error. \<open>ignore_lib\<close> is the package \<^verbatim>\<open>ignore\<close>: the texts added to
  a matcher, and the relative path asked. \<open>regexp_engine\<close> is \<^verbatim>\<open>RegExp\<close> beyond the
  fragment modelled above. The module-level \<open>metadataCache\<close> is part of the state.
\<close>

record world =
  fs_stat :: "nat \<Rightarrow> string \<Rightarrow> string + Stats"
  fs_readdir :: "nat \<Rightarrow> string \<Rightarrow> string + string list"
  fs_readFile :: "nat \<Rightarrow> string \<Rightarrow> string \<Rightarrow> string + string"
  fs_access :: "nat \<Rightarrow> string \<Rightarrow> bool"
  date_now :: "nat \<Rightarrow> int"
  cwd :: string
  ignore_lib :: "string list \<Rightarrow> string \<Rightarrow> bool"
  regexp_engine :: "string \<Rightarrow> string \<Rightarrow> error + bool"
  localeCompare :: "string \<Rightarrow> string \<Rightarrow> int"
  trace :: "event list"
  metadataCache :: "(string, FileInfo) LRUCache"

text \<open>The files whose content was read, in the order of the reads.\<close>

fun reads :: "event list \<Rightarrow> string list" where
  "reads [] = []"
| "reads (EvReadFile p # es) = p # reads es"
| "reads (_ # es) = reads es"

definition tick :: "event \<Rightarrow> world \<Rightarrow> world" where
  "tick e w = w\<lparr>trace := trace w @ [e]\<rparr>"

definition Date_now :: "world \<Rightarrow> int" where
  "Date_now w = date_now w (length (trace w))"

definition stat :: "world \<Rightarrow> string \<Rightarrow> (string + Stats) \<times> world" where
  "stat w p = (fs_stat w (length (trace w)) p, tick (EvStat p) w)"

definition readdir :: "world \<Rightarrow> string \<Rightarrow> (string + string list) \<times> world" where
  "readdir w p = (fs_readdir w (length (trace w)) p, tick (EvReaddir p) w)"

definition readFile :: "world \<Rightarrow> string \<Rightarrow> string \<Rightarrow> (string + string) \<times> world" where
  "readFile w p encoding = (fs_readFile w (length (trace w)) p encoding, tick (EvReadFile p) w)"

definition pathExists :: "world \<Rightarrow> string \<Rightarrow> bool \<times> world" where
  "pathExists w p = (fs_access w (length (trace w)) p, tick (EvAccess p) w)"

subsection \<open>\<open>getFileInfo\<close>: metadata through the cache\<close>

definition getFileInfo :: "world \<Rightarrow> string \<Rightarrow> (error + FileInfo) \<times> world" where
  "getFileInfo w p =
     (case LRUCache_get (metadataCache w) p (Date_now w) of
        (Some cached, c1) \<Rightarrow> (Inr cached, w\<lparr>metadataCache := c1\<rparr>)
      | (None, c1) \<Rightarrow>
          (case stat (w\<lparr>metadataCache := c1\<rparr>) p of
             (Inl msg, w1) \<Rightarrow> (Inl (StatFailure p msg), w1)
           | (Inr stats, w1) \<Rightarrow>
               let fileName = basename p;
                   fileExt = (if st_isFile stats then Some (drop 1 (extname p)) else None);
                   info = \<lparr>fi_path = p, fi_name = fileName, fi_size = st_size stats,
                           fi_modified = st_mtime stats, fi_isDirectory = st_isDirectory stats,
                           fi_extension = fileExt\<rparr>
               in (Inr info,
                   w1\<lparr>metadataCache := LRUCache_set (metadataCache w1) p info (Date_now w1)\<rparr>)))"

definition clearFileInfoCache :: "world \<Rightarrow> world" where
  "clearFileInfoCache w = w\<lparr>metadataCache := LRUCache_clear (metadataCache w)\<rparr>"

subsection \<open>RangeReader (\<open>readFileContent\<close>)\<close>

text \<open>
  \<^verbatim>\<open>xs.slice(start, end)\<close> on integers: a negative index counts from the end, and both
  indices are clamped to the array.
\<close>

definition js_slice :: "'a list \<Rightarrow> int \<Rightarrow> int \<Rightarrow> 'a list" where
  "js_slice xs start end =
     (let n = int (length xs);
          k = (if start < 0 then max (n + start) 0 else min start n);
          final = (if end < 0 then max (n + end) 0 else min end n)
      in take (nat (final - k)) (drop (nat k) xs))"

definition range_of_lines :: "string \<Rightarrow> int option \<Rightarrow> int option \<Rightarrow> string" where
  "range_of_lines content startLine endLine =
     (let lines = split_on CHR 0x0A content;
          start = max 0 ((case startLine of None \<Rightarrow> 1 | Some s \<Rightarrow> s) - 1);
          end = min (int (length lines)) (case endLine of None \<Rightarrow> int (length lines) | Some e \<Rightarrow> e)
      in join_with [CHR 0x0A] (js_slice lines start end))"

definition readFileContent ::
  "world \<Rightarrow> string \<Rightarrow> int option \<Rightarrow> int option \<Rightarrow> string \<Rightarrow> (error + string) \<times> world" where
  "readFileContent w filePath startLine endLine encoding =
     (case readFile w filePath encoding of
        (Inl msg, w1) \<Rightarrow> (Inl (ReadFailure filePath msg), w1)
      | (Inr content, w1) \<Rightarrow>
          if startLine = None \<and> endLine = None then (Inr content, w1)
          else (Inr (range_of_lines content startLine endLine), w1))"

subsection \<open>TextSearchEngine (\<open>searchInFile\<close>)\<close>

record SearchResult =
  sr_file :: string
  sr_line :: int
  sr_content :: string
  sr_before :: "string list"
  sr_after :: "string list"

text \<open>
  The loop \<^verbatim>\<open>for (let i = 0; i < lines.length; i++)\<close>: \<open>rest\<close> are the lines from index \<open>i\<close>
  on, the one regular expression object is carried from line to line.
\<close>

fun search_loop ::
  "string \<Rightarrow> string list \<Rightarrow> int \<Rightarrow> RegExp \<Rightarrow> nat \<Rightarrow> string list \<Rightarrow> SearchResult list \<Rightarrow> SearchResult list" where
  "search_loop filePath lines contextLines regex i [] results = results"
| "search_loop filePath lines contextLines regex i (l # rest) results =
     (case RegExp_test regex l of
        (True, regex') \<Rightarrow>
          search_loop filePath lines contextLines regex' (Suc i) rest
            (results @ [\<lparr>sr_file = filePath, sr_line = int i + 1, sr_content = l,
                sr_before = js_slice lines (max 0 (int i - contextLines)) (int i),
                sr_after = js_slice lines (int i + 1) (int i + 1 + contextLines)\<rparr>])
      | (False, regex') \<Rightarrow>
          search_loop filePath lines contextLines regex' (Suc i) rest results)"

definition search_source :: "string \<Rightarrow> bool \<Rightarrow> string" where
  "search_source query wholeWord =
     (if wholeWord then [backslash, CHR ''b''] @ escapeRegExp query @ [backslash, CHR ''b'']
      else escapeRegExp query)"

definition search_content ::
  "string \<Rightarrow> string \<Rightarrow> string \<Rightarrow> bool \<Rightarrow> bool \<Rightarrow> int \<Rightarrow> SearchResult list \<Rightarrow> error + SearchResult list" where
  "search_content filePath content query caseSensitive wholeWord contextLines results =
     (let lines = split_on CHR 0x0A content;
          flags = (if caseSensitive then ''g'' else ''gi'')
      in case RegExp_new (search_source query wholeWord) flags of
           None \<Rightarrow> Inl (Raw ''SyntaxError'')
         | Some regex \<Rightarrow> Inr (search_loop filePath lines contextLines regex 0 lines results))"

definition searchInFile ::
  "world \<Rightarrow> string \<Rightarrow> string \<Rightarrow> bool \<Rightarrow> bool \<Rightarrow> int \<Rightarrow> SearchResult list
     \<Rightarrow> (error + SearchResult list) \<times> world" where
  "searchInFile w filePath query caseSensitive wholeWord contextLines results =
     (case readFile w filePath ''utf-8'' of
        (Inl msg, w1) \<Rightarrow> (Inl (Raw msg), w1)
      | (Inr content, w1) \<Rightarrow>
          (search_content filePath content query caseSensitive wholeWord contextLines results, w1))"

text \<open>
  What the specification asks of one file: a line matches when the expression, fresh
  for that line, finds the query in it.
\<close>

definition line_matches :: "string \<Rightarrow> bool \<Rightarrow> bool \<Rightarrow> string \<Rightarrow> bool" where
  "line_matches query caseSensitive wholeWord l =
     (case RegExp_new (search_source query wholeWord) (if caseSensitive then ''g'' else ''gi'') of
        None \<Rightarrow> False
      | Some regex \<Rightarrow> fst (RegExp_test regex l))"

subsection \<open>IgnoreMatcher (\<open>loadIgnoreMatcher\<close>)\<close>

text \<open>
  A matcher is the predicate \<^verbatim>\<open>ig.ignores\<close>. Without a readable \<^verbatim>\<open>.gitignore\<close> nothing was
  added to it.
\<close>

definition loadIgnoreMatcher :: "world \<Rightarrow> string \<Rightarrow> (string \<Rightarrow> bool) \<times> world" where
  "loadIgnoreMatcher w rootPath =
     (case readFile w (join rootPath ''.gitignore'') ''utf-8'' of
        (Inl msg, w1) \<Rightarrow> (ignore_lib w1 [], w1)
      | (Inr content, w1) \<Rightarrow> (ignore_lib w1 [content], w1))"

subsection \<open>DirectoryWalker, flat mode (\<open>listFiles\<close>, \<open>walkDirectory\<close>)\<close>

text \<open>The arguments \<open>walkDirectory\<close> hands down unchanged.\<close>

record walk_opts =
  wo_maxDepth :: int
  wo_recursive :: bool
  wo_includeHidden :: bool
  wo_pattern :: "string option"
  wo_matcher :: "string \<Rightarrow> bool"
  wo_basePath :: string

text \<open>
  \<open>walkDirectory\<close> and the loop over its entries. The array \<open>results\<close> is shared and
  appended to, so it is threaded with the state. An exception inside the loop
  (\<open>getFileInfo\<close>, or a pattern the engine rejects) ends the loop of that directory:
  the \<^verbatim>\<open>catch\<close> only warns, and what was pushed before stays.
\<close>

function walkDirectory :: "walk_opts \<Rightarrow> string \<Rightarrow> int \<Rightarrow> FileInfo list \<times> world \<Rightarrow> FileInfo list \<times> world"
  and walkEntries :: "walk_opts \<Rightarrow> string \<Rightarrow> int \<Rightarrow> string list \<Rightarrow> FileInfo list \<times> world \<Rightarrow> FileInfo list \<times> world"
where
  "walkDirectory opts dirPath currentDepth st =
     (if currentDepth > wo_maxDepth opts then st
      else case readdir (snd st) dirPath of
             (Inl msg, w1) \<Rightarrow> (fst st, w1)
           | (Inr entries, w1) \<Rightarrow> walkEntries opts dirPath currentDepth entries (fst st, w1))"
| "walkEntries opts dirPath currentDepth [] st = st"
| "walkEntries opts dirPath currentDepth (entry # rest) st =
     (if \<not> wo_includeHidden opts \<and> startsWith entry ''.''
      then walkEntries opts dirPath currentDepth rest st
      else let fullPath = join dirPath entry;
               relPath = relative (cwd (snd st)) (wo_basePath opts) fullPath
           in if wo_matcher opts relPath then walkEntries opts dirPath currentDepth rest st
              else case getFileInfo (snd st) fullPath of
                     (Inl e, w1) \<Rightarrow> (fst st, w1)
                   | (Inr fileInfo, w1) \<Rightarrow>
                       if fi_isDirectory fileInfo then
                         walkEntries opts dirPath currentDepth rest
                           (if wo_recursive opts
                            then walkDirectory opts fullPath (currentDepth + 1) (fst st @ [fileInfo], w1)
                            else (fst st @ [fileInfo], w1))
                       else (case (case wo_pattern opts of
                                     None \<Rightarrow> Inr True
                                   | Some pattern \<Rightarrow>
                                       if pattern = [] then Inr True
                                       else matchesPattern (regexp_engine w1) (fi_name fileInfo) pattern) of
                               Inl e \<Rightarrow> (fst st, w1)
                             | Inr False \<Rightarrow> walkEntries opts dirPath currentDepth rest (fst st, w1)
                             | Inr True \<Rightarrow>
                                 walkEntries opts dirPath currentDepth rest (fst st @ [fileInfo], w1)))"
  by pat_completeness auto
termination
  by (relation "measures
        [\<lambda>x. case x of
                Inl (opts, dirPath, d, st) \<Rightarrow> 2 * nat (wo_maxDepth opts + 1 - d)
              | Inr (opts, dirPath, d, es, st) \<Rightarrow> 2 * nat (wo_maxDepth opts + 1 - d) - 1,
         \<lambda>x. case x of Inl _ \<Rightarrow> 0 | Inr (opts, dirPath, d, es, st) \<Rightarrow> length es]")
     auto

text \<open>
  \<^verbatim>\<open>array.sort(compare)\<close> is stable; for a comparator that orders consistently it is the
  insertion sort below.
\<close>

fun insert_by :: "('a \<Rightarrow> 'a \<Rightarrow> int) \<Rightarrow> 'a \<Rightarrow> 'a list \<Rightarrow> 'a list" where
  "insert_by cmp x [] = [x]"
| "insert_by cmp x (y # ys) = (if cmp x y \<le> 0 then x # y # ys else y # insert_by cmp x ys)"

definition sort_by :: "('a \<Rightarrow> 'a \<Rightarrow> int) \<Rightarrow> 'a list \<Rightarrow> 'a list" where
  "sort_by cmp xs = foldr (insert_by cmp) xs []"

definition compareEntries :: "(string \<Rightarrow> string \<Rightarrow> int) \<Rightarrow> FileInfo \<Rightarrow> FileInfo \<Rightarrow> int" where
  "compareEntries lc a b =
     (if fi_isDirectory a \<and> \<not> fi_isDirectory b then - 1
      else if \<not> fi_isDirectory a \<and> fi_isDirectory b then 1
      else lc (fi_name a) (fi_name b))"

record ListFilesOptions =
  lo_pattern :: "string option"
  lo_recursive :: "bool option"
  lo_maxDepth :: "int option"
  lo_includeHidden :: "bool option"

definition or_default :: "'a option \<Rightarrow> 'a \<Rightarrow> 'a" where
  "or_default x d = (case x of None \<Rightarrow> d | Some v \<Rightarrow> v)"

definition listFiles :: "world \<Rightarrow> string \<Rightarrow> ListFilesOptions \<Rightarrow> FileInfo list \<times> world" where
  "listFiles w rootPath options =
     (case loadIgnoreMatcher w rootPath of
        (matcher, w1) \<Rightarrow>
          (case walkDirectory
                  \<lparr>wo_maxDepth = or_default (lo_maxDepth options) 10,
                   wo_recursive = or_default (lo_recursive options) True,
                   wo_includeHidden = or_default (lo_includeHidden options) False,
                   wo_pattern = lo_pattern options,
                   wo_matcher = matcher, wo_basePath = rootPath\<rparr>
                  rootPath 0 ([], w1) of
             (results, w2) \<Rightarrow> (sort_by (compareEntries (localeCompare w2)) results, w2)))"

subsection \<open>DirectoryWalker, nested mode (\<open>getDirectoryTree\<close>)\<close>

datatype DirTreeNode = DirTreeNode (node_info: FileInfo) (node_children: "DirTreeNode list option")

record tree_options =
  to_maxDepth :: "int option"
  to_includeHidden :: "bool option"

text \<open>
  \<open>getDirectoryTree\<close> and the loop over its entries. Only the outermost call has no
  matcher and loads one; an exception inside the \<^verbatim>\<open>try\<close> is thrown again with the path
  of the directory.
\<close>

function getDirectoryTree ::
    "tree_options \<Rightarrow> string \<Rightarrow> int \<Rightarrow> (string \<Rightarrow> bool) option \<Rightarrow> string \<Rightarrow> world
       \<Rightarrow> (error + DirTreeNode) \<times> world"
  and treeChildren ::
    "tree_options \<Rightarrow> string \<Rightarrow> int \<Rightarrow> (string \<Rightarrow> bool) \<Rightarrow> string \<Rightarrow> string list
       \<Rightarrow> DirTreeNode list \<Rightarrow> world \<Rightarrow> (error + DirTreeNode list) \<times> world"
where
  "getDirectoryTree options rootPath currentDepth matcher basePath w =
     (case (case matcher of Some m \<Rightarrow> (m, w) | None \<Rightarrow> loadIgnoreMatcher w basePath) of
        (ignoreMatcher, w0) \<Rightarrow>
          (case getFileInfo w0 rootPath of
             (Inl e, w1) \<Rightarrow> (Inl e, w1)
           | (Inr info, w1) \<Rightarrow>
               if \<not> fi_isDirectory info \<or> currentDepth \<ge> or_default (to_maxDepth options) 10
               then (Inr (DirTreeNode info None), w1)
               else (case readdir w1 rootPath of
                       (Inl msg, w2) \<Rightarrow> (Inl (ReaddirFailure rootPath msg), w2)
                     | (Inr entries, w2) \<Rightarrow>
                         (case treeChildren options rootPath currentDepth ignoreMatcher basePath
                                 entries [] w2 of
                            (Inl e, w3) \<Rightarrow> (Inl (ReaddirFailure rootPath (message e)), w3)
                          | (Inr cs, w3) \<Rightarrow>
                              (Inr (DirTreeNode info
                                      (Some (sort_by (\<lambda>a b. compareEntries (localeCompare w3) (node_info a) (node_info b)) cs))),
                               w3)))))"
| "treeChildren options rootPath currentDepth ignoreMatcher basePath [] cs w = (Inr cs, w)"
| "treeChildren options rootPath currentDepth ignoreMatcher basePath (entry # rest) cs w =
     (if \<not> or_default (to_includeHidden options) False \<and> startsWith entry ''.''
      then treeChildren options rootPath currentDepth ignoreMatcher basePath rest cs w
      else let fullPath = join rootPath entry;
               relPath = relative (cwd w) basePath fullPath
           in if ignoreMatcher relPath
              then treeChildren options rootPath currentDepth ignoreMatcher basePath rest cs w
              else (case getDirectoryTree options fullPath (currentDepth + 1) (Some ignoreMatcher)
                           basePath w of
                      (Inl e, w1) \<Rightarrow> (Inl e, w1)
                    | (Inr child, w1) \<Rightarrow>
                        treeChildren options rootPath currentDepth ignoreMatcher basePath rest
                          (cs @ [child]) w1))"
  by pat_completeness auto
termination
  by (relation "measures
        [\<lambda>x. case x of
                Inl (options, rootPath, d, m, basePath, w) \<Rightarrow>
                  2 * nat (or_default (to_maxDepth options) 10 + 1 - d)
              | Inr (options, rootPath, d, m, basePath, es, cs, w) \<Rightarrow>
                  2 * nat (or_default (to_maxDepth options) 10 + 1 - d) - 1,
         \<lambda>x. case x of Inl _ \<Rightarrow> 0 | Inr (options, rootPath, d, m, basePath, es, cs, w) \<Rightarrow> length es]")
     auto

subsection \<open>TextSearchEngine over directories (\<open>searchInFiles\<close>)\<close>

record SearchFilesOptions =
  so_query :: string
  so_filePattern :: "string option"
  so_caseSensitive :: "bool option"
  so_wholeWord :: "bool option"
  so_contextLines :: "int option"
  so_maxDepth :: "int option"

text \<open>The loop over the files of one root; a file that cannot be read is skipped.\<close>

fun search_files_loop ::
  "world \<Rightarrow> FileInfo list \<Rightarrow> string \<Rightarrow> bool \<Rightarrow> bool \<Rightarrow> int \<Rightarrow> SearchResult list
     \<Rightarrow> SearchResult list \<times> world" where
  "search_files_loop w [] query cs ww ctx results = (results, w)"
| "search_files_loop w (file # files) query cs ww ctx results =
     (if fi_isDirectory file then search_files_loop w files query cs ww ctx results
      else case searchInFile w (fi_path file) query cs ww ctx results of
             (Inl e, w1) \<Rightarrow> search_files_loop w1 files query cs ww ctx results
           | (Inr results', w1) \<Rightarrow> search_files_loop w1 files query cs ww ctx results')"

definition searchInDirectory ::
  "world \<Rightarrow> string \<Rightarrow> string \<Rightarrow> bool \<Rightarrow> bool \<Rightarrow> int \<Rightarrow> string option \<Rightarrow> int option
     \<Rightarrow> SearchResult list \<Rightarrow> SearchResult list \<times> world" where
  "searchInDirectory w dirPath query cs ww ctx filePattern maxDepth results =
     (case listFiles w dirPath
             \<lparr>lo_pattern = filePattern, lo_recursive = None, lo_maxDepth = maxDepth,
              lo_includeHidden = None\<rparr> of
        (files, w1) \<Rightarrow> search_files_loop w1 files query cs ww ctx results)"

fun search_roots_loop ::
  "world \<Rightarrow> string list \<Rightarrow> SearchFilesOptions \<Rightarrow> SearchResult list \<Rightarrow> SearchResult list \<times> world" where
  "search_roots_loop w [] options results = (results, w)"
| "search_roots_loop w (rootPath # rootPaths) options results =
     (case searchInDirectory w rootPath (so_query options)
             (or_default (so_caseSensitive options) False)
             (or_default (so_wholeWord options) False)
             (or_default (so_contextLines options) 2)
             (so_filePattern options) (so_maxDepth options) results of
        (results', w1) \<Rightarrow> search_roots_loop w1 rootPaths options results')"

definition searchInFiles :: "world \<Rightarrow> string list \<Rightarrow> SearchFilesOptions \<Rightarrow> SearchResult list \<times> world" where
  "searchInFiles w rootPaths options = search_roots_loop w rootPaths options []"

subsection \<open>Predicates over walks\<close>

text \<open>
  A state of the flat walk is in order when its world satisfies \<open>I\<close> and every entry
  listed so far satisfies \<open>R\<close>; \<open>infos\<close> are the entries of all nodes of a tree.
\<close>

definition st_ok :: "(world \<Rightarrow> bool) \<Rightarrow> (FileInfo \<Rightarrow> bool) \<Rightarrow> FileInfo list \<times> world \<Rightarrow> bool" where
  "st_ok I R st \<longleftrightarrow> I (snd st) \<and> (\<forall>fi \<in> set (fst st). R fi)"

fun infos :: "DirTreeNode \<Rightarrow> FileInfo list" where
  "infos (DirTreeNode fi cs) =
     fi # (case cs of None \<Rightarrow> [] | Some xs \<Rightarrow> concat (map infos xs))"

definition tree_ok :: "(FileInfo \<Rightarrow> bool) \<Rightarrow> DirTreeNode list \<Rightarrow> bool" where
  "tree_ok R cs \<longleftrightarrow> (\<forall>c \<in> set cs. \<forall>fi \<in> set (infos c). R fi)"

subsection \<open>Normalized paths and the names of a directory\<close>

text \<open>
  A name as a directory lists it: not empty, without separator, neither \<^verbatim>\<open>.\<close> nor \<^verbatim>\<open>..\<close>.
  \<open>render\<close> is the normalized absolute path with the given segments. A path is admitted
  below the root with segments \<open>rs\<close> when it continues the root by clean names and the
  matcher \<open>ig\<close> ignores none of the relative paths on the way down to it.
\<close>

definition clean_name :: "string \<Rightarrow> bool" where
  "clean_name e \<longleftrightarrow> e \<noteq> [] \<and> CHR ''/'' \<notin> set e \<and> e \<noteq> ''.'' \<and> e \<noteq> ''..''"

definition render :: "string list \<Rightarrow> string" where
  "render segs = ''/'' @ join_with ''/'' segs"

definition admitted :: "(string \<Rightarrow> bool) \<Rightarrow> string list \<Rightarrow> string \<Rightarrow> bool" where
  "admitted ig rs p \<longleftrightarrow>
     (\<exists>ns. p = render (rs @ ns) \<and> (\<forall>n \<in> set ns. clean_name n) \<and>
           (\<forall>k. 0 < k \<and> k \<le> length ns \<longrightarrow> \<not> ig (join_with ''/'' (take k ns))))"

text \<open>Every cached entry is filed under its own path; directories list clean names only.\<close>

definition cache_paths_ok :: "(string, FileInfo) LRUCache \<Rightarrow> bool" where
  "cache_paths_ok c \<longleftrightarrow> (\<forall>p \<in> set (cache c). fi_path (cvalue (snd p)) = fst p)"

definition names_ok :: "world \<Rightarrow> bool" where
  "names_ok w \<longleftrightarrow> (\<forall>t p es. fs_readdir w t p = Inr es \<longrightarrow> (\<forall>e \<in> set es. clean_name e))"

definition walk_inv :: "world \<Rightarrow> world \<Rightarrow> bool" where
  "walk_inv w0 w \<longleftrightarrow>
     cache_paths_ok (metadataCache w) \<and> fs_readdir w = fs_readdir w0 \<and> cwd w = cwd w0 \<and>
     ignore_lib w = ignore_lib w0 \<and> localeCompare w = localeCompare w0"

subsection \<open>The tool \<^verbatim>\<open>read_files\<close>\<close>

text \<open>The input of a tool is a JSON value; numbers are integers here.\<close>

datatype json =
    JUndefined | JNull | JBool bool | JNum int | JStr string
  | JArr "json list" | JObj "(string \<times> json) list"

text \<open>\<^verbatim>\<open>params.k\<close>: a type error on \<^verbatim>\<open>null\<close> and \<^verbatim>\<open>undefined\<close>, \<^verbatim>\<open>undefined\<close> for a missing key.\<close>

fun get_prop :: "json \<Rightarrow> string \<Rightarrow> error + json" where
  "get_prop JUndefined k = Inl (TypeError (''Cannot read properties of undefined (reading '' @ quote k @ '')''))"
| "get_prop JNull k = Inl (TypeError (''Cannot read properties of null (reading '' @ quote k @ '')''))"
| "get_prop (JObj kvs) k = Inr (case map_of kvs k of None \<Rightarrow> JUndefined | Some v \<Rightarrow> v)"
| "get_prop _ k = Inr JUndefined"

record ReadFilesInput =
  paths :: "string list"
  startLine :: "int option"
  endLine :: "int option"
  encoding :: string
  showLineNumbers :: bool
  maxFileSize :: int

definition validEncodings :: "string list" where
  "validEncodings = [''ascii'', ''utf8'', ''utf-8'', ''utf16le'', ''ucs2'', ''ucs-2'',
                     ''base64'', ''latin1'', ''binary'', ''hex'']"

definition isValidEncoding :: "json \<Rightarrow> bool" where
  "isValidEncoding e = (case e of JStr s \<Rightarrow> s \<in> set validEncodings | _ \<Rightarrow> False)"

fun string_items :: "json list \<Rightarrow> string list" where
  "string_items [] = []"
| "string_items (JStr s # xs) = s # string_items xs"
| "string_items (_ # xs) = string_items xs"

text \<open>The first part of \<open>parseInput\<close>: the list of paths, from \<^verbatim>\<open>path\<close> or \<^verbatim>\<open>paths\<close>.\<close>

definition input_paths :: "json \<Rightarrow> error + string list" where
  "input_paths input =
     (case get_prop input ''path'' of
        Inl e \<Rightarrow> Inl e
      | Inr (JStr p) \<Rightarrow> Inr [p]
      | Inr _ \<Rightarrow>
          (case get_prop input ''paths'' of
             Inl e \<Rightarrow> Inl e
           | Inr (JArr xs) \<Rightarrow> Inr (string_items xs)
           | Inr (JStr p) \<Rightarrow> Inr [p]
           | Inr _ \<Rightarrow> Inl MissingPaths))"

definition num_prop :: "json \<Rightarrow> string \<Rightarrow> int option" where
  "num_prop input k = (case get_prop input k of Inr (JNum n) \<Rightarrow> Some n | _ \<Rightarrow> None)"

definition parseInput :: "json \<Rightarrow> error + ReadFilesInput" where
  "parseInput input =
     (case input_paths input of
        Inl e \<Rightarrow> Inl e
      | Inr ps \<Rightarrow>
          if length ps = 0 then Inl NoPaths
          else if length ps > 10 then Inl TooManyPaths
          else Inr \<lparr>paths = ps,
                    startLine = map_option (max 1) (num_prop input ''startLine''),
                    endLine = map_option (max 1) (num_prop input ''endLine''),
                    encoding = (case get_prop input ''encoding'' of
                                  Inr (JStr e) \<Rightarrow> if isValidEncoding (JStr e) then e else ''utf-8''
                                | _ \<Rightarrow> ''utf-8''),
                    showLineNumbers = (case get_prop input ''showLineNumbers'' of
                                         Inr (JBool b) \<Rightarrow> b | _ \<Rightarrow> True),
                    maxFileSize = (case num_prop input ''maxFileSize'' of
                                     Some n \<Rightarrow> max 1024 n | None \<Rightarrow> 1024 * 1024)\<rparr>)"

definition addLineNumbers :: "string \<Rightarrow> int \<Rightarrow> string" where
  "addLineNumbers content start =
     (let lines = split_on CHR 0x0A content
      in join_with [CHR 0x0A]
           (map (\<lambda>(line, index). show_int (start + int index) @ ''| '' @ line)
                (zip lines [0 ..< length lines])))"

text \<open>\<open>resolveFilePath\<close>: the loop over the roots for a relative path.\<close>

fun resolve_loop :: "world \<Rightarrow> string \<Rightarrow> string list \<Rightarrow> string option \<times> world" where
  "resolve_loop w filePath [] = (None, w)"
| "resolve_loop w filePath (root # roots) =
     (let candidate = normalize (resolve (cwd w) [root, filePath])
      in case validatePathAccess (cwd w) candidate [root] of
           Inl e \<Rightarrow> resolve_loop w filePath roots
         | Inr withinRoot \<Rightarrow>
             (case pathExists w withinRoot of
                (True, w1) \<Rightarrow> (Some withinRoot, w1)
              | (False, w1) \<Rightarrow> resolve_loop w1 filePath roots))"

definition resolveFilePath :: "world \<Rightarrow> string \<Rightarrow> string list \<Rightarrow> (error + string) \<times> world" where
  "resolveFilePath w filePath rootPaths =
     (if isAbsolute filePath then (validatePathAccess (cwd w) filePath rootPaths, w)
      else case resolve_loop w filePath rootPaths of
             (Some p, w1) \<Rightarrow> (Inr p, w1)
           | (None, w1) \<Rightarrow> (Inl (NotFound filePath rootPaths), w1))"

record read_result =
  rr_path :: string
  rr_content :: "string option"
  rr_error :: "string option"

fun display_path :: "world \<Rightarrow> string \<Rightarrow> string \<Rightarrow> string list \<Rightarrow> string" where
  "display_path w filePath validatedPath [] = filePath"
| "display_path w filePath validatedPath (root # roots) =
     (if startsWith validatedPath root then relative (cwd w) root validatedPath
      else display_path w filePath validatedPath roots)"

definition readSingleFile ::
  "world \<Rightarrow> string \<Rightarrow> ReadFilesInput \<Rightarrow> string list \<Rightarrow> (error + read_result) \<times> world" where
  "readSingleFile w filePath params rootPaths =
     (case resolveFilePath w filePath rootPaths of
        (Inl e, w1) \<Rightarrow> (Inl e, w1)
      | (Inr validatedPath, w1) \<Rightarrow>
          (case getFileInfo w1 validatedPath of
             (Inl e, w2) \<Rightarrow> (Inl e, w2)
           | (Inr fileInfo, w2) \<Rightarrow>
               if fi_isDirectory fileInfo then (Inl (IsADirectory filePath), w2)
               else if fi_size fileInfo > maxFileSize params
                 then (Inl (TooLarge (fi_size fileInfo) (maxFileSize params)), w2)
               else (case readFileContent w2 validatedPath (startLine params) (endLine params)
                            (encoding params) of
                       (Inl e, w3) \<Rightarrow> (Inl e, w3)
                     | (Inr content, w3) \<Rightarrow>
                         let formattedContent =
                               (if showLineNumbers params
                                then addLineNumbers content
                                       (case startLine params of
                                          None \<Rightarrow> 1 | Some s \<Rightarrow> if s = 0 then 1 else s)
                                else content)
                         in (Inr \<lparr>rr_path = display_path w3 filePath validatedPath rootPaths,
                                  rr_content = Some formattedContent, rr_error = None\<rparr>, w3))))"

text \<open>The loop of the handler: a failure of one file becomes its entry of the results.\<close>

fun read_loop ::
  "world \<Rightarrow> ReadFilesInput \<Rightarrow> string list \<Rightarrow> string list \<Rightarrow> read_result list \<Rightarrow> read_result list \<times> world" where
  "read_loop w params rootPaths [] results = (results, w)"
| "read_loop w params rootPaths (filePath # rest) results =
     (case readSingleFile w filePath params rootPaths of
        (Inr file, w1) \<Rightarrow> read_loop w1 params rootPaths rest (results @ [file])
      | (Inl e, w1) \<Rightarrow>
          read_loop w1 params rootPaths rest
            (results @ [\<lparr>rr_path = filePath, rr_content = None, rr_error = Some (message e)\<rparr>]))"

text \<open>
  The handler; its results are returned as they are, the code sends their JSON text.
\<close>

text \<open>The check \<^verbatim>\<open>params.startLine && params.endLine && params.startLine > params.endLine\<close>.\<close>

definition invalid_range :: "ReadFilesInput \<Rightarrow> bool" where
  "invalid_range params =
     (case (startLine params, endLine params) of
        (Some s, Some e) \<Rightarrow> s \<noteq> 0 \<and> e \<noteq> 0 \<and> s > e
      | _ \<Rightarrow> False)"

definition readFiles_handler :: "world \<Rightarrow> json \<Rightarrow> string list \<Rightarrow> (error + read_result list) \<times> world" where
  "readFiles_handler w input roots =
     (case parseInput input of
        Inl e \<Rightarrow> (Inl e, w)
      | Inr params \<Rightarrow>
          if invalid_range params then (Inl InvalidRange, w)
          else (case read_loop w params roots (paths params) [] of (rs, w1) \<Rightarrow> (Inr rs, w1)))"

subsection \<open>A small file system\<close>

text \<open>
  The scenario of the specification, used to run the functions on concrete inputs:
  the root \<^verbatim>\<open>/r\<close> holds \<^verbatim>\<open>a.txt\<close> with the three lines \<^verbatim>\<open>x\<close>, \<^verbatim>\<open>foo\<close>, \<^verbatim>\<open>y\<close>, a file
  \<^verbatim>\<open>big.bin\<close> of 2,000,000 bytes, a \<^verbatim>\<open>.gitignore\<close> with the line \<^verbatim>\<open>skip\<close>, and the
  directory \<^verbatim>\<open>skip\<close> with \<^verbatim>\<open>b.txt\<close>. Its matcher ignores a path whose first segment is a
  line of the ignore file; its clock counts the calls.
\<close>

definition LF :: char where
  "LF = CHR 0x0A"

fun str_compare :: "string \<Rightarrow> string \<Rightarrow> int" where
  "str_compare [] [] = 0"
| "str_compare [] (b # bs) = - 1"
| "str_compare (a # as) [] = 1"
| "str_compare (a # as) (b # bs) =
     (if (of_char a :: nat) < of_char b then - 1
      else if (of_char b :: nat) < of_char a then 1
      else str_compare as bs)"

definition demo_file :: "int \<Rightarrow> Stats" where
  "demo_file n = \<lparr>st_size = n, st_mtime = ''2024-01-01T00:00:00.000Z'',
                  st_isDirectory = False, st_isFile = True\<rparr>"

definition demo_dir :: Stats where
  "demo_dir = \<lparr>st_size = 0, st_mtime = ''2024-01-01T00:00:00.000Z'',
               st_isDirectory = True, st_isFile = False\<rparr>"

definition demo_world :: world where
  "demo_world =
     \<lparr>fs_stat = (\<lambda>t p.
          if p = ''/r'' \<or> p = ''/r/skip'' then Inr demo_dir
          else if p = ''/r/a.txt'' then Inr (demo_file 7)
          else if p = ''/r/big.bin'' then Inr (demo_file 2000000)
          else if p = ''/r/.gitignore'' then Inr (demo_file 5)
          else if p = ''/r/skip/b.txt'' then Inr (demo_file 3)
          else Inl ''ENOENT''),
      fs_readdir = (\<lambda>t p.
          if p = ''/r'' then Inr [''.gitignore'', ''a.txt'', ''big.bin'', ''skip'']
          else if p = ''/r/skip'' then Inr [''b.txt'']
          else Inl ''ENOTDIR''),
      fs_readFile = (\<lambda>t p enc.
          if p = ''/r/a.txt'' then Inr (''x'' @ [LF] @ ''foo'' @ [LF] @ ''y'')
          else if p = ''/r/.gitignore'' then Inr (''skip'' @ [LF])
          else if p = ''/r/skip/b.txt'' then Inr ''foo''
          else Inl ''ENOENT''),
      fs_access = (\<lambda>t p. p \<in> set [''/r'', ''/r/a.txt'', ''/r/big.bin'', ''/r/.gitignore'',
                                     ''/r/skip'', ''/r/skip/b.txt'']),
      date_now = (\<lambda>t. int t),
      cwd = ''/r'',
      ignore_lib = (\<lambda>texts rel.
          case split_on CHR ''/'' rel of
            [] \<Rightarrow> False
          | s # ss \<Rightarrow> s \<noteq> [] \<and> s \<in> set (concat (map (split_on LF) texts))),
      regexp_engine = (\<lambda>source subject. Inl (Raw ''SyntaxError'')),
      localeCompare = str_compare,
      trace = [],
      metadataCache = LRUCache_new 1000 30000\<rparr>"

text \<open>A request for the large file and its small sibling, with the smallest size limit.\<close>

definition demo_input :: json where
  "demo_input = JObj [(''paths'', JArr [JStr ''big.bin'', JStr ''a.txt'']), (''maxFileSize'', JNum 1024)]"

definition demo_params :: ReadFilesInput where
  "demo_params = \<lparr>paths = [''big.bin'', ''a.txt''], startLine = None, endLine = None,
                    encoding = ''utf-8'', showLineNumbers = True, maxFileSize = 1024\<rparr>"

definition eleven_paths :: json where
  "eleven_paths = JObj [(''paths'', JArr [JStr ''notes1.md'', JStr ''notes2.md'', JStr ''notes3.md'', JStr ''notes4.md'',
       JStr ''notes5.md'', JStr ''notes6.md'', JStr ''notes7.md'', JStr ''notes8.md'',
       JStr ''notes9.md'', JStr ''notes10.md'', JStr ''notes11.md''])]"

definition demo_options :: ListFilesOptions where
  "demo_options = \<lparr>lo_pattern = None, lo_recursive = None, lo_maxDepth = None, lo_includeHidden = None\<rparr>"

definition txt_options :: ListFilesOptions where
  "txt_options = \<lparr>lo_pattern = Some ''*.txt'', lo_recursive = None, lo_maxDepth = None, lo_includeHidden = None\<rparr>"

definition tx_options :: ListFilesOptions where
  "tx_options = \<lparr>lo_pattern = Some ''*.tx'', lo_recursive = None, lo_maxDepth = None, lo_includeHidden = None\<rparr>"


text \<open>
  The package \<^verbatim>\<open>ignore\<close> on rule files whose lines are names. It decides on the path
  alone, without looking at the file system: a line \<^verbatim>\<open>name\<close> ignores every path with a
  segment \<^verbatim>\<open>name\<close>; a line \<^verbatim>\<open>name/\<close>, a rule for directories only, ignores a path
  that continues below a segment \<^verbatim>\<open>name\<close>, be it with the closing separator alone: the
  path \<^verbatim>\<open>name\<close> itself is taken for a file and not ignored, the path \<^verbatim>\<open>name/\<close> is.
\<close>

definition rule_ignores :: "string \<Rightarrow> string \<Rightarrow> bool" where
  "rule_ignores rule rel =
     (let segs = split_on CHR ''/'' rel
      in if rule \<noteq> [] \<and> last rule = CHR ''/''
         then butlast rule \<noteq> [] \<and> butlast rule \<in> set (butlast segs)
         else rule \<noteq> [] \<and> rule \<in> set segs)"

definition ignore_names :: "string list \<Rightarrow> string \<Rightarrow> bool" where
  "ignore_names texts rel =
     list_ex (\<lambda>rule. rule_ignores rule rel) (concat (map (split_on LF) texts))"

text \<open>
  The same file system where the ignore file holds the line \<^verbatim>\<open>skip/\<close>, the usual way
  to name a directory.
\<close>

definition slash_world :: world where
  "slash_world =
     demo_world\<lparr>fs_readFile := (\<lambda>t p enc.
                    if p = ''/r/.gitignore'' then Inr (''skip/'' @ [LF])
                    else fs_readFile demo_world t p enc),
                 ignore_lib := ignore_names\<rparr>"
section \<open>Properties\<close>

subsection \<open>Paths: splitting, joining and normalizing\<close>

lemma split_on_nonempty: "split_on c s \<noteq> []"
  by (induction s) (auto split: list.splits)

lemma split_on_no_sep: "c \<notin> set x \<Longrightarrow> split_on c x = [x]"
  by (induction x) auto

lemma split_on_append: "c \<notin> set x \<Longrightarrow> split_on c (x @ c # rest) = x # split_on c rest"
  by (induction x) auto

lemma split_on_join:
  "xs \<noteq> [] \<Longrightarrow> \<forall>x \<in> set xs. c \<notin> set x \<Longrightarrow> split_on c (join_with [c] xs) = xs"
proof (induction "[c]" xs rule: join_with.induct)
  case 1
  then show ?case by simp
next
  case (2 l)
  then show ?case by (simp add: split_on_no_sep)
next
  case (3 l v va)
  then show ?case by (simp add: split_on_append)
qed

lemma split_on_join_append:
  "xs \<noteq> [] \<Longrightarrow> \<forall>x \<in> set xs. c \<notin> set x \<Longrightarrow>
     split_on c (join_with [c] xs @ c # rest) = xs @ split_on c rest"
proof (induction "[c]" xs rule: join_with.induct)
  case 1
  then show ?case by simp
next
  case (2 l)
  then show ?case by (simp add: split_on_append)
next
  case (3 l v va)
  then show ?case by (simp add: split_on_append)
qed

lemma join_with_snoc:
  "join_with s (xs @ [e]) = (if xs = [] then e else join_with s xs @ s @ e)"
  by (induction s xs rule: join_with.induct) auto

lemma norm_fold:
  "\<forall>s \<in> set xs. s = [] \<or> clean_name s \<Longrightarrow>
     foldl (norm_step False) acc xs = acc @ filter (\<lambda>s. s \<noteq> []) xs"
  by (induction xs arbitrary: acc) (auto simp: norm_step_def clean_name_def)

lemma normalizeSegments_clean:
  "\<forall>s \<in> set xs. s = [] \<or> clean_name s \<Longrightarrow>
     normalizeSegments False xs = filter (\<lambda>s. s \<noteq> []) xs"
  by (simp add: normalizeSegments_def norm_fold)

lemma clean_filter: "\<forall>s \<in> set xs. clean_name s \<Longrightarrow> filter (\<lambda>s. s \<noteq> []) xs = xs"
  by (induction xs) (auto simp: clean_name_def)

lemma split_render:
  assumes "\<forall>s \<in> set xs. clean_name s"
  shows "split_on CHR ''/'' (render xs) = [] # (if xs = [] then [[]] else xs)"
proof (cases "xs = []")
  case True
  then show ?thesis by (simp add: render_def)
next
  case False
  have "\<forall>x \<in> set xs. CHR ''/'' \<notin> set x" using assms by (simp add: clean_name_def)
  then have "split_on CHR ''/'' (join_with ''/'' xs) = xs"
    using False split_on_join[of xs "CHR ''/''"] by simp
  then show ?thesis using False by (simp add: render_def)
qed

lemma segments_render:
  assumes "\<forall>s \<in> set xs. clean_name s"
  shows "segments (render xs) = xs"
  using assms by (simp add: segments_def split_render clean_filter)

lemma split_render_slash:
  assumes "\<forall>s \<in> set xs. clean_name s"
  shows "split_on CHR ''/'' (render xs @ ''/'' @ rest) =
           [] # (if xs = [] then [] # split_on CHR ''/'' rest else xs @ split_on CHR ''/'' rest)"
proof (cases "xs = []")
  case True
  then show ?thesis by (simp add: render_def)
next
  case False
  have "\<forall>x \<in> set xs. CHR ''/'' \<notin> set x" using assms by (simp add: clean_name_def)
  then have "split_on CHR ''/'' (join_with ''/'' xs @ CHR ''/'' # rest) = xs @ split_on CHR ''/'' rest"
    using False split_on_join_append[of xs "CHR ''/''" rest] by simp
  then show ?thesis using False by (simp add: render_def)
qed

lemma resolve_render:
  assumes "\<forall>s \<in> set xs. clean_name s"
  shows "resolve c [render xs] = render xs"
proof -
  have g: "resolve_gather c [render xs] = render xs @ ''/'' @ []"
    by (simp add: render_def isAbsolute_def)
  have sp: "split_on CHR ''/'' (render xs @ ''/'' @ []) =
           [] # (if xs = [] then [] # [[]] else xs @ [[]])"
    using split_render_slash[OF assms, of "[]"] by simp
  have N: "normalizeSegments False (split_on CHR ''/'' (render xs @ ''/'' @ [])) = xs"
    unfolding sp using assms
    by (subst normalizeSegments_clean) (auto simp: clean_filter)
  have ns: "normalizeString (resolve_gather c [render xs]) False = join_with ''/'' xs"
    unfolding g normalizeString_def N ..
  have "resolve c [render xs] = ''/'' @ normalizeString (resolve_gather c [render xs]) False"
    by (simp add: resolve_def)
  also have "\<dots> = render xs"
    unfolding ns by (simp add: render_def)
  finally show ?thesis .
qed

lemma clean_last_no_slash: "clean_name e \<Longrightarrow> last (p @ ''/'' @ e) \<noteq> CHR ''/''"
  by (cases e rule: rev_cases) (auto simp: clean_name_def)

lemma join_with_nonempty: "clean_name e \<Longrightarrow> join_with s (xs @ [e]) \<noteq> []"
  by (auto simp: join_with_snoc clean_name_def)

lemma join_render:
  assumes "\<forall>s \<in> set ds. clean_name s" and "clean_name e"
  shows "join (render ds) e = render (ds @ [e])"
proof -
  let ?p = "render ds @ ''/'' @ e"
  have e: "e \<noteq> []" using assms(2) by (simp add: clean_name_def)
  have es: "split_on CHR ''/'' e = [e]"
    using assms(2) by (simp add: split_on_no_sep clean_name_def)
  have sp: "split_on CHR ''/'' ?p = [] # (if ds = [] then [] # [e] else ds @ [e])"
    using split_render_slash[OF assms(1), of e] es by simp
  have N: "normalizeSegments False (split_on CHR ''/'' ?p) = ds @ [e]"
    unfolding sp using assms e
    by (subst normalizeSegments_clean) (auto simp: clean_filter)
  have q: "normalizeString ?p False = join_with ''/'' (ds @ [e])"
    unfolding normalizeString_def N ..
  have abs: "isAbsolute ?p" by (simp add: isAbsolute_def render_def)
  have nl: "last ?p \<noteq> CHR ''/''" using clean_last_no_slash[OF assms(2)] .
  have ne: "join_with ''/'' (ds @ [e]) \<noteq> []" using join_with_nonempty[OF assms(2)] .
  have "normalize ?p = ''/'' @ join_with ''/'' (ds @ [e])"
    using abs nl ne q by (simp add: normalize_def Let_def)
  moreover have "join (render ds) e = normalize ?p"
    using e by (simp add: join_def render_def)
  ultimately show ?thesis by (simp add: render_def)
qed

lemma common_prefix_length_append: "common_prefix_length xs (xs @ ys) = length xs"
  by (induction xs) auto

lemma relative_render:
  assumes "\<forall>s \<in> set (rs @ ns). clean_name s"
  shows "relative c (render rs) (render (rs @ ns)) = join_with ''/'' ns"
proof -
  have r: "\<forall>s \<in> set rs. clean_name s" using assms by simp
  show ?thesis
    by (simp add: relative_def resolve_render[OF r] resolve_render[OF assms]
        segments_render[OF r] segments_render[OF assms] common_prefix_length_append)
qed

lemma split_on_slash_free: "\<forall>s \<in> set (split_on c p). c \<notin> set s"
  by (induction p) (auto split: list.splits)

lemma norm_step_clean:
  assumes "\<forall>s \<in> set res. clean_name s" and "CHR ''/'' \<notin> set seg"
  shows "\<forall>s \<in> set (norm_step False res seg). clean_name s"
  using assms by (auto simp: norm_step_def clean_name_def dest: in_set_butlastD)

lemma norm_fold_clean:
  "\<forall>s \<in> set acc. clean_name s \<Longrightarrow> \<forall>s \<in> set xs. CHR ''/'' \<notin> set s \<Longrightarrow>
     \<forall>s \<in> set (foldl (norm_step False) acc xs). clean_name s"
proof (induction xs arbitrary: acc)
  case Nil
  then show ?case by simp
next
  case (Cons x xs)
  have "\<forall>s \<in> set (norm_step False acc x). clean_name s"
    using norm_step_clean[of acc x] Cons.prems by simp
  then show ?case using Cons.IH[of "norm_step False acc x"] Cons.prems by simp
qed

lemma resolve_is_render:
  "\<exists>xs. (\<forall>s \<in> set xs. clean_name s) \<and> resolve c args = render xs"
proof -
  let ?xs = "normalizeSegments False (split_on CHR ''/'' (resolve_gather c (rev args)))"
  have "\<forall>s \<in> set ?xs. clean_name s"
    unfolding normalizeSegments_def
    by (rule norm_fold_clean) (simp_all add: split_on_slash_free)
  moreover have "resolve c args = render ?xs"
    by (simp add: resolve_def normalizeString_def render_def)
  ultimately show ?thesis by blast
qed

lemma join_with_last:
  assumes "xs \<noteq> []" and "\<forall>s \<in> set xs. clean_name s"
  shows "join_with ''/'' xs \<noteq> [] \<and> last (join_with ''/'' xs) \<noteq> CHR ''/''"
proof -
  obtain ys e where xs: "xs = ys @ [e]" using assms(1) by (cases xs rule: rev_cases) auto
  have e: "clean_name e" using assms(2) xs by simp
  then obtain cs ch where ee: "e = cs @ [ch]" "ch \<noteq> CHR ''/''"
    by (cases e rule: rev_cases) (auto simp: clean_name_def)
  show ?thesis by (simp add: xs join_with_snoc ee)
qed

lemma normalize_render:
  assumes "\<forall>s \<in> set xs. clean_name s"
  shows "normalize (render xs) = render xs"
proof (cases "xs = []")
  case True
  then show ?thesis
    by (simp add: render_def normalize_def normalizeString_def normalizeSegments_def
        norm_step_def isAbsolute_def)
next
  case False
  have N: "normalizeSegments False (split_on CHR ''/'' (render xs)) = xs"
    using assms False
    by (subst normalizeSegments_clean) (auto simp: split_render clean_filter)
  have q: "normalizeString (render xs) False = join_with ''/'' xs"
    unfolding normalizeString_def N ..
  have l: "join_with ''/'' xs \<noteq> [] \<and> last (join_with ''/'' xs) \<noteq> CHR ''/''"
    using join_with_last[OF False assms] .
  have abs: "isAbsolute (render xs)" by (simp add: isAbsolute_def render_def)
  have nl: "last (render xs) \<noteq> CHR ''/''" using l by (simp add: render_def)
  show ?thesis using abs nl l q by (simp add: normalize_def Let_def render_def)
qed

lemma join_with_Cons: "xs \<noteq> [] \<Longrightarrow> join_with s (x # xs) = x @ s @ join_with s xs"
  by (cases xs) simp_all

lemma join_with_append:
  "xs \<noteq> [] \<Longrightarrow> ys \<noteq> [] \<Longrightarrow> join_with s (xs @ ys) = join_with s xs @ s @ join_with s ys"
proof (induction xs)
  case Nil
  then show ?case by simp
next
  case (Cons x xs)
  show ?case
  proof (cases "xs = []")
    case True
    then show ?thesis using Cons.prems by (simp add: join_with_Cons)
  next
    case False
    have a: "join_with s (x # (xs @ ys)) = x @ s @ join_with s (xs @ ys)"
      by (rule join_with_Cons) (use False in simp)
    have b: "join_with s (x # xs) = x @ s @ join_with s xs"
      by (rule join_with_Cons) (rule False)
    show ?thesis
      using Cons.IH[OF False Cons.prems(2)] by (simp only: append_Cons a b append_assoc)
  qed
qed

lemma render_inj:
  assumes "\<forall>s \<in> set xs. clean_name s" and "\<forall>s \<in> set ys. clean_name s" and "render xs = render ys"
  shows "xs = ys"
  using segments_render[OF assms(1)] segments_render[OF assms(2)] assms(3) by metis

lemma sandbox_test_iff_prefix:
  assumes rs: "\<forall>s \<in> set rs. clean_name s" and ps: "\<forall>s \<in> set ps. clean_name s" and ne: "rs \<noteq> []"
  shows "(startsWith (render ps) (render rs @ sep) \<or> render ps = render rs) \<longleftrightarrow> prefix rs ps"
proof
  assume "startsWith (render ps) (render rs @ sep) \<or> render ps = render rs"
  then show "prefix rs ps"
  proof
    assume "render ps = render rs"
    then show ?thesis using render_inj[OF ps rs] by blast
  next
    assume "startsWith (render ps) (render rs @ sep)"
    then obtain rest where r: "render ps = render rs @ sep @ rest"
      unfolding startsWith_def by (metis append_assoc append_take_drop_id)
    have "segments (render ps) = filter (\<lambda>s. s \<noteq> []) (rs @ split_on CHR ''/'' rest)"
      unfolding r using split_render_slash[OF rs, of rest] ne
      by (simp add: segments_def sep_def)
    then have "ps = rs @ filter (\<lambda>s. s \<noteq> []) (split_on CHR ''/'' rest)"
      using segments_render[OF ps] clean_filter[OF rs] by simp
    then show ?thesis by (metis prefixI)
  qed
next
  assume "prefix rs ps"
  then obtain zs where z: "ps = rs @ zs" by (auto simp: prefix_def)
  show "startsWith (render ps) (render rs @ sep) \<or> render ps = render rs"
  proof (cases "zs = []")
    case True
    then show ?thesis using z by simp
  next
    case False
    have "render ps = (render rs @ sep) @ join_with ''/'' zs"
      using ne False by (simp add: z render_def join_with_append sep_def)
    then show ?thesis by (simp add: startsWith_def)
  qed
qed

subsection \<open>The metadata cache\<close>

lemma Map_delete_keys: "map fst (Map_delete m k) = removeAll k (map fst m)"
  by (induction m) (auto simp: Map_delete_def)

lemma Map_delete_length_le: "length (Map_delete m k) \<le> length m"
  by (simp add: Map_delete_def)

lemma Map_delete_length_less:
  "k \<in> set (map fst m) \<Longrightarrow> length (Map_delete m k) < length m"
proof -
  assume "k \<in> set (map fst m)"
  then obtain p where "p \<in> set m" "fst p = k" by auto
  then show ?thesis unfolding Map_delete_def by (intro length_filter_less[of p]) auto
qed

lemma Map_delete_absent: "\<not> Map_has m k \<Longrightarrow> Map_delete m k = m"
  by (induction m) (auto simp: Map_has_def Map_delete_def)

lemma Map_set_fresh: "k \<notin> set (map fst m) \<Longrightarrow> Map_set m k v = m @ [(k, v)]"
  by (induction m) auto

lemma Map_set_after_delete: "Map_set (Map_delete m k) k v = Map_delete m k @ [(k, v)]"
  by (rule Map_set_fresh) (simp add: Map_delete_keys)

lemma sorted_wrt_removeAll: "sorted_wrt P xs \<Longrightarrow> sorted_wrt P (removeAll k xs)"
  by (induction xs) auto

lemma Map_delete_first: "distinct (map fst (p # ps)) \<Longrightarrow> Map_delete (p # ps) (fst p) = ps"
proof -
  assume "distinct (map fst (p # ps))"
  then have "\<forall>q \<in> set ps. fst q \<noteq> fst p" by (fastforce simp: image_iff)
  then have "filter (\<lambda>q. fst q \<noteq> fst p) ps = ps" by (simp add: filter_id_conv)
  then show ?thesis by (simp add: Map_delete_def)
qed

lemma stamps_distinct: "sorted_wrt (\<lambda>a b. (u::'k \<Rightarrow> nat) a < u b) ks \<Longrightarrow> distinct ks"
  by (induction ks) auto

lemma sorted_promote:
  assumes "sorted_wrt (\<lambda>a b. (u::'k \<Rightarrow> nat) a < u b) ks" "\<forall>k' \<in> set ks. u k' \<le> n"
  shows "sorted_wrt (\<lambda>a b. (u(k := Suc n)) a < (u(k := Suc n)) b) (removeAll k ks @ [k])"
proof -
  have "sorted_wrt (\<lambda>a b. u a < u b) (removeAll k ks)"
    using assms(1) by (rule sorted_wrt_removeAll)
  then have "sorted_wrt (\<lambda>a b. (u(k := Suc n)) a < (u(k := Suc n)) b) (removeAll k ks)"
    by (rule sorted_wrt_mono_rel[rotated]) auto
  moreover have "\<forall>k' \<in> set (removeAll k ks). (u(k := Suc n)) k' < (u(k := Suc n)) k"
    using assms(2) by (auto simp: less_Suc_eq_le)
  ultimately show ?thesis by (simp add: sorted_wrt_append)
qed

text \<open>Promoting a key: it leaves its place and is appended with a fresh stamp.\<close>

lemma inv_promote:
  assumes "lru_inv c n u" "int (length (Map_delete (cache c) k)) + 1 \<le> maxSize c"
  shows "lru_inv (c\<lparr>cache := Map_delete (cache c) k @ [(k, e)]\<rparr>) (Suc n) (u(k := Suc n))"
proof -
  have "sorted_wrt (\<lambda>a b. (u(k := Suc n)) a < (u(k := Suc n)) b)
          (removeAll k (map fst (cache c)) @ [k])"
    using assms(1) by (intro sorted_promote) (auto simp: lru_inv_def keys_of_def)
  moreover have "\<forall>k' \<in> set (removeAll k (map fst (cache c)) @ [k]). (u(k := Suc n)) k' \<le> Suc n"
    using assms(1) by (auto simp: lru_inv_def keys_of_def intro: le_SucI)
  ultimately show ?thesis
    using assms by (simp add: lru_inv_def keys_of_def Map_delete_keys Map_size_def)
qed

lemma inv_delete:
  assumes "lru_inv c n u"
  shows "lru_inv (c\<lparr>cache := Map_delete (cache c) k\<rparr>) (Suc n) u"
proof -
  have "int (length (Map_delete (cache c) k)) \<le> int (length (cache c))"
    using Map_delete_length_le[of "cache c" k] by simp
  then show ?thesis using assms
    by (auto simp: lru_inv_def keys_of_def Map_delete_keys Map_size_def sorted_wrt_removeAll
        intro: le_SucI)
qed

lemma lru_inv_get:
  assumes "lru_inv c n u"
  shows "lru_inv (snd (LRUCache_get c k now)) (Suc n)
           (if fst (LRUCache_get c k now) = None then u else u(k := Suc n))"
proof (cases "Map_get (cache c) k")
  case None
  then show ?thesis using assms by (auto simp: LRUCache_get_def lru_inv_def keys_of_def intro: le_SucI)
next
  case (Some e)
  show ?thesis
  proof (cases "now > expires e")
    case True
    then show ?thesis using inv_delete[OF assms, of k] Some
      by (simp add: LRUCache_get_def)
  next
    case False
    have kin: "k \<in> set (map fst (cache c))"
      using Some by (auto simp: Map_get_def dest: map_of_SomeD intro: rev_image_eqI)
    have "int (length (Map_delete (cache c) k)) + 1 \<le> maxSize c"
      using Map_delete_length_less[OF kin] assms by (simp add: lru_inv_def Map_size_def)
    from inv_promote[OF assms this, of e] show ?thesis using Some False
      by (simp add: LRUCache_get_def Map_set_after_delete)
  qed
qed

lemma lru_inv_set:
  assumes "lru_inv c n u"
  shows "lru_inv (LRUCache_set c k v now) (Suc n) (u(k := Suc n))"
proof -
  define e where "e = \<lparr>cvalue = v, expires = now + ttl c\<rparr>"
  define m2 where "m2 = Map_delete (cache c) k @ [(k, e)]"
  have m1: "(if Map_has (cache c) k then Map_delete (cache c) k else cache c) = Map_delete (cache c) k"
    by (simp add: Map_delete_absent)
  have set_eq: "LRUCache_set c k v now =
      (if Map_size m2 > maxSize c
       then (case Map_firstKey m2 of Some firstKey \<Rightarrow> c\<lparr>cache := Map_delete m2 firstKey\<rparr>
             | None \<Rightarrow> c\<lparr>cache := m2\<rparr>)
       else c\<lparr>cache := m2\<rparr>)"
    unfolding LRUCache_set_def Let_def m1 Map_set_after_delete m2_def e_def ..
  show ?thesis
  proof (cases "Map_size m2 > maxSize c")
    case False
    then have "int (length (Map_delete (cache c) k)) + 1 \<le> maxSize c"
      by (simp add: m2_def Map_size_def)
    from inv_promote[OF assms this, of e] show ?thesis
      using False by (simp add: set_eq m2_def)
  next
    case True
    let ?c2 = "c\<lparr>maxSize := maxSize c + 1, cache := m2\<rparr>"
    have "lru_inv (c\<lparr>maxSize := maxSize c + 1\<rparr>) n u"
      using assms by (simp add: lru_inv_def keys_of_def)
    moreover have "int (length (Map_delete (cache c) k)) + 1 \<le> maxSize c + 1"
      using assms Map_delete_length_le[of "cache c" k] by (simp add: lru_inv_def Map_size_def)
    ultimately have i2: "lru_inv ?c2 (Suc n) (u(k := Suc n))"
      using inv_promote[of "c\<lparr>maxSize := maxSize c + 1\<rparr>" n u k e] by (simp add: m2_def)
    obtain p ps where m2_cons: "m2 = p # ps" by (cases m2) (auto simp: m2_def)
    have d: "distinct (map fst m2)"
      using i2 by (auto simp: lru_inv_def dest: stamps_distinct)
    have del: "Map_delete m2 (fst p) = ps"
      using d unfolding m2_cons by (rule Map_delete_first)
    have res: "LRUCache_set c k v now = c\<lparr>cache := ps\<rparr>"
      using True by (simp add: set_eq m2_cons Map_firstKey_def del[unfolded m2_cons])
    have "length m2 \<le> Suc (length (cache c))"
      using Map_delete_length_le[of "cache c" k] by (simp add: m2_def)
    then have "int (length ps) \<le> maxSize c"
      using assms by (simp add: m2_cons lru_inv_def Map_size_def)
    then show ?thesis
      using i2 assms by (auto simp: res m2_cons lru_inv_def keys_of_def Map_size_def)
  qed
qed

lemma lru_inv_step:
  assumes "lru_inv c n u"
  shows "lru_inv (cache_step c x) (Suc n) (case promotes c x of None \<Rightarrow> u | Some k \<Rightarrow> u(k := Suc n))"
proof (cases x)
  case (Get k now)
  then show ?thesis using lru_inv_get[OF assms, of k now] by (auto split: if_splits)
next
  case (Set k v now)
  then show ?thesis using lru_inv_set[OF assms, of k v now] by simp
qed

lemma lru_inv_run:
  "lru_inv c n u \<Longrightarrow> lru_inv (cache_run c ops) (n + length ops) (last_used c n u ops)"
proof (induction ops arbitrary: c n u)
  case Nil
  then show ?case by (simp add: cache_run_def)
next
  case (Cons x ops)
  from Cons.IH[OF lru_inv_step[OF Cons.prems, of x]] show ?case
    by (simp add: cache_run_def)
qed

lemma lru_inv_new: "0 \<le> C \<Longrightarrow> lru_inv (LRUCache_new C T) 0 (\<lambda>_. 0)"
  by (simp add: lru_inv_def LRUCache_new_def keys_of_def Map_size_def)

lemma LRUCache_set_cache:
  assumes "distinct (map fst (cache c))"
  shows "cache (LRUCache_set c k v now) =
          (let m2 = Map_delete (cache c) k @ [(k, \<lparr>cvalue = v, expires = now + ttl c\<rparr>)]
           in if Map_size m2 > maxSize c then tl m2 else m2)"
proof -
  define m2 where "m2 = Map_delete (cache c) k @ [(k, \<lparr>cvalue = v, expires = now + ttl c\<rparr>)]"
  have m1: "(if Map_has (cache c) k then Map_delete (cache c) k else cache c) = Map_delete (cache c) k"
    by (simp add: Map_delete_absent)
  have set_eq: "LRUCache_set c k v now =
      (if Map_size m2 > maxSize c
       then (case Map_firstKey m2 of Some firstKey \<Rightarrow> c\<lparr>cache := Map_delete m2 firstKey\<rparr>
             | None \<Rightarrow> c\<lparr>cache := m2\<rparr>)
       else c\<lparr>cache := m2\<rparr>)"
    unfolding LRUCache_set_def Let_def m1 Map_set_after_delete m2_def ..
  obtain p ps where m2_cons: "m2 = p # ps" by (cases m2) (auto simp: m2_def)
  have "distinct (map fst m2)"
    using assms by (simp add: m2_def Map_delete_keys distinct_removeAll)
  then have "Map_delete m2 (fst p) = ps"
    unfolding m2_cons by (rule Map_delete_first)
  then show ?thesis
    unfolding m2_def[symmetric] Let_def set_eq by (simp add: m2_cons Map_firstKey_def)
qed

lemma maxSize_step: "maxSize (cache_step c x) = maxSize c"
  by (cases x) (auto simp: LRUCache_get_def LRUCache_set_def Let_def split: option.splits)

lemma maxSize_run: "maxSize (cache_run c ops) = maxSize c"
  unfolding cache_run_def by (induction ops arbitrary: c) (simp_all add: maxSize_step)

text \<open>
  Claim C3. Start from an empty cache of capacity \<open>C \<ge> 0\<close> and run any sequence \<open>ops\<close>
  of get and set operations, reaching the cache \<open>c\<close>. Then \<open>c\<close> holds at most \<open>C\<close>
  entries, under pairwise distinct keys. A further \<open>set\<close> of key \<open>k\<close> works on the keys
  \<open>ins\<close> (those of \<open>c\<close>, and \<open>k\<close>): if they are more than \<open>C\<close>, exactly one key, the
  victim, is dropped and the cache holds \<open>C\<close> entries again, and the victim is the key
  of \<open>ins\<close> whose last promotion lies strictly before that of every other one, where the
  stamps \<open>u'\<close> record a promotion at every successful get and every set (this set
  included). Otherwise nothing is dropped.
\<close>

theorem C3_capacity_bound_and_lru_eviction:
  fixes ops :: "('k, 'v) cache_op list"
  assumes "0 \<le> C"
  shows "let c0 = LRUCache_new C T; c = cache_run c0 ops; u = last_used c0 0 (\<lambda>_. 0) ops;
             c' = LRUCache_set c k v now; u' = u(k := Suc (length ops));
             ins = insert k (keys_of c)
         in Map_size (cache c) \<le> C \<and> distinct (map fst (cache c)) \<and>
            (if int (card ins) > C
             then \<exists>victim \<in> ins. (\<forall>k' \<in> ins - {victim}. u' victim < u' k') \<and>
                    keys_of c' = ins - {victim} \<and> Map_size (cache c') = C
             else keys_of c' = ins)"
proof -
  define c where "c = cache_run (LRUCache_new C T) ops"
  define u where "u = last_used (LRUCache_new C T) 0 (\<lambda>_. 0) ops"
  define u' where "u' = u(k := Suc (length ops))"
  define ks where "ks = removeAll k (map fst (cache c)) @ [k]"
  define m2 where "m2 = Map_delete (cache c) k @ [(k, \<lparr>cvalue = v, expires = now + ttl c\<rparr>)]"
  define c' where "c' = LRUCache_set c k v now"
  have inv: "lru_inv c (length ops) u"
    using lru_inv_run[OF lru_inv_new[OF assms, of T], of ops] by (simp add: c_def u_def)
  have mx: "maxSize c = C"
    by (simp add: c_def maxSize_run LRUCache_new_def)
  have size_c: "Map_size (cache c) \<le> C"
    using inv mx by (simp add: lru_inv_def)
  have dist_c: "distinct (map fst (cache c))"
    using inv by (auto simp: lru_inv_def dest: stamps_distinct)
  have keys_m2: "map fst m2 = ks"
    by (simp add: m2_def ks_def Map_delete_keys)
  have sorted_ks: "sorted_wrt (\<lambda>a b. u' a < u' b) ks"
    unfolding ks_def u'_def using inv
    by (intro sorted_promote) (auto simp: lru_inv_def keys_of_def)
  have dist_ks: "distinct ks"
    using sorted_ks by (rule stamps_distinct)
  have set_ks: "set ks = insert k (keys_of c)"
    by (auto simp: ks_def keys_of_def)
  have len_ks: "int (length ks) \<le> C + 1"
    using size_c Map_delete_length_le[of "cache c" k]
    by (simp add: keys_m2[symmetric] m2_def Map_size_def)
  have cache': "cache c' = (if int (length ks) > C then tl m2 else m2)"
    unfolding c'_def LRUCache_set_cache[OF dist_c] m2_def[symmetric] Let_def
    by (simp add: Map_size_def mx keys_m2[symmetric])
  have keys': "keys_of c' = (if int (length ks) > C then set (tl ks) else set ks)"
    by (simp add: keys_of_def cache' keys_m2[symmetric] map_tl del: set_map)
  have third: "if int (length ks) > C
        then \<exists>victim \<in> set ks. (\<forall>k' \<in> set ks - {victim}. u' victim < u' k') \<and>
               keys_of c' = set ks - {victim} \<and> Map_size (cache c') = C
        else keys_of c' = set ks"
  proof (cases "int (length ks) > C")
    case False
    then show ?thesis by (simp add: keys')
  next
    case True
    obtain x xs where ks_cons: "ks = x # xs" by (cases ks) (auto simp: ks_def)
    have "\<forall>k' \<in> set ks - {x}. u' x < u' k'"
      using sorted_ks by (auto simp: ks_cons)
    moreover have "keys_of c' = set ks - {x}"
      using True dist_ks by (auto simp: keys' ks_cons)
    moreover have "Map_size (cache c') = C"
    proof -
      have "length m2 = length ks" by (simp add: keys_m2[symmetric])
      then have "int (length (tl m2)) = int (length ks) - 1" by (simp add: ks_cons)
      then show ?thesis using True len_ks by (simp add: cache' Map_size_def)
    qed
    ultimately show ?thesis using True by (auto simp: ks_cons)
  qed
  show ?thesis
    unfolding Let_def c_def[symmetric] u_def[symmetric] u'_def[symmetric] c'_def[symmetric]
    using size_c dist_c third by (simp add: set_ks[symmetric] distinct_card[OF dist_ks])
qed

theorem C3_capacity_bound_and_lru_eviction_witness:
  "(0::int) \<le> 2 \<and>
   (let c0 = LRUCache_new 2 10;
        c = cache_run c0 [Set ''a'' (1::nat) 0, Set ''b'' 2 1, Get ''a'' 2];
        u = last_used c0 0 (\<lambda>_. 0) [Set ''a'' (1::nat) 0, Set ''b'' 2 1, Get ''a'' 2];
        c' = LRUCache_set c ''c'' 3 3; u' = u(''c'' := Suc (length [Set ''a'' (1::nat) 0, Set ''b'' 2 1, Get ''a'' 2]));
        ins = insert ''c'' (keys_of c)
    in Map_size (cache c) \<le> 2 \<and> distinct (map fst (cache c)) \<and>
       (if int (card ins) > 2
        then \<exists>victim \<in> ins. (\<forall>k' \<in> ins - {victim}. u' victim < u' k') \<and>
               keys_of c' = ins - {victim} \<and> Map_size (cache c') = 2
        else keys_of c' = ins) \<and>
       map fst (cache c) = [''b'', ''a''] \<and> map fst (cache c') = [''a'', ''c''])"
proof -
  have h: "(0::int) \<le> 2" by simp
  have ev: "let c = cache_run (LRUCache_new 2 10) [Set ''a'' (1::nat) 0, Set ''b'' 2 1, Get ''a'' 2];
                c' = LRUCache_set c ''c'' 3 3
            in map fst (cache c) = [''b'', ''a''] \<and> map fst (cache c') = [''a'', ''c'']"
    by (simp add: cache_run_def LRUCache_new_def LRUCache_set_def LRUCache_get_def Map_get_def
        Map_has_def Map_delete_def Map_size_def Map_firstKey_def)
  show ?thesis
    using h ev C3_capacity_bound_and_lru_eviction
      [OF h, of 10 "[Set ''a'' (1::nat) 0, Set ''b'' 2 1, Get ''a'' 2]" "''c''" 3 3]
    unfolding Let_def by blast
qed

text \<open>
  Claim C4. A get at a time strictly later than the entry's \<open>expires\<close> returns absent and
  leaves the cache without the key, every other entry staying where it was; this holds
  for any capacity and any position of the key in the order of the map.
\<close>

theorem C4_expired_get_absent_and_removed:
  assumes "Map_get (cache c) key = Some entry" and "now > expires entry"
  shows "fst (LRUCache_get c key now) = None \<and>
         cache (snd (LRUCache_get c key now)) = Map_delete (cache c) key \<and>
         Map_get (cache (snd (LRUCache_get c key now))) key = None \<and>
         \<not> Map_has (cache (snd (LRUCache_get c key now))) key"
proof -
  have res: "LRUCache_get c key now = (None, c\<lparr>cache := Map_delete (cache c) key\<rparr>)"
    using assms by (simp add: LRUCache_get_def)
  have gone: "key \<notin> set (map fst (Map_delete (cache c) key))"
    by (simp add: Map_delete_keys)
  then have "map_of (Map_delete (cache c) key) key = None"
    by (simp add: map_of_eq_None_iff)
  with gone show ?thesis
    by (simp add: res Map_get_def Map_has_def)
qed

theorem C4_expired_get_absent_and_removed_witness:
  "Map_get (cache \<lparr>cache = [(''a'', \<lparr>cvalue = (1::nat), expires = 10\<rparr>),
                            (''b'', \<lparr>cvalue = 2, expires = 30\<rparr>)], maxSize = 5, ttl = 10\<rparr>) ''a''
     = Some \<lparr>cvalue = 1, expires = 10\<rparr> \<and> (11::int) > expires \<lparr>cvalue = (1::nat), expires = 10\<rparr> \<and>
   LRUCache_get \<lparr>cache = [(''a'', \<lparr>cvalue = (1::nat), expires = 10\<rparr>),
                            (''b'', \<lparr>cvalue = 2, expires = 30\<rparr>)], maxSize = 5, ttl = 10\<rparr> ''a'' 11
     = (None, \<lparr>cache = [(''b'', \<lparr>cvalue = 2, expires = 30\<rparr>)], maxSize = 5, ttl = 10\<rparr>)"
proof -
  let ?c = "\<lparr>cache = [(''a'', \<lparr>cvalue = (1::nat), expires = 10\<rparr>),
                            (''b'', \<lparr>cvalue = 2, expires = 30\<rparr>)], maxSize = 5, ttl = (10::int)\<rparr>"
  have h1: "Map_get (cache ?c) ''a'' = Some \<lparr>cvalue = 1, expires = 10\<rparr>"
    by (simp add: Map_get_def)
  have h2: "(11::int) > expires \<lparr>cvalue = (1::nat), expires = 10\<rparr>" by simp
  from C4_expired_get_absent_and_removed[OF h1 h2]
  have "fst (LRUCache_get ?c ''a'' 11) = None"
    and "cache (snd (LRUCache_get ?c ''a'' 11)) = Map_delete (cache ?c) ''a''" by blast+
  moreover have "snd (LRUCache_get ?c ''a'' 11) = ?c\<lparr>cache := cache (snd (LRUCache_get ?c ''a'' 11))\<rparr>"
    by (simp add: LRUCache_get_def Map_get_def)
  ultimately show ?thesis using h1 h2
    by (simp add: prod_eq_iff Map_delete_def)
qed
subsection \<open>PathSandbox\<close>

lemma validate_loop_Some:
  "validate_loop c n roots = Some p \<longleftrightarrow>
     p = n \<and> (\<exists>root \<in> set roots.
              startsWith n (normalize (resolve c [root]) @ sep) \<or> n = normalize (resolve c [root]))"
  by (induction roots) (auto simp: Let_def)

text \<open>
  The loop of \<open>validatePathAccess\<close> admits a path exactly when some root, in normalized
  form, equals the normalized path or, followed by the separator, starts it.
\<close>

lemma validatePathAccess_iff:
  "validatePathAccess c p roots =
     (let n = normalize (resolve c [p])
      in if \<exists>root \<in> set roots.
              startsWith n (normalize (resolve c [root]) @ sep) \<or> n = normalize (resolve c [root])
         then Inr n else Inl (OutsideSandbox p))"
proof (cases "validate_loop c (normalize (resolve c [p])) roots")
  case None
  then show ?thesis
    using validate_loop_Some[of c "normalize (resolve c [p])" roots]
    by (auto simp: validatePathAccess_def Let_def)
next
  case (Some q)
  then show ?thesis
    using validate_loop_Some[of c "normalize (resolve c [p])" roots q]
    by (auto simp: validatePathAccess_def Let_def)
qed

text \<open>
  For roots other than the root directory the test on the text of the paths decides
  exactly whether the path is the root or a descendant of it, segment by segment.
\<close>

lemma sandbox_correct_for_proper_roots:
  assumes "\<forall>root \<in> set roots. segments (resolve c [root]) \<noteq> []"
  shows "validatePathAccess c p roots =
           (if \<exists>root \<in> set roots. within_root c root p
            then Inr (resolve c [p]) else Inl (OutsideSandbox p))"
proof -
  obtain ps where ps: "\<forall>s \<in> set ps. clean_name s" "resolve c [p] = render ps"
    using resolve_is_render[of c "[p]"] by blast
  have n: "normalize (resolve c [p]) = render ps" using ps normalize_render by simp
  have each: "\<And>root. root \<in> set roots \<Longrightarrow>
      (startsWith (render ps) (normalize (resolve c [root]) @ sep) \<or>
       render ps = normalize (resolve c [root])) \<longleftrightarrow> within_root c root p"
  proof -
    fix root assume in_roots: "root \<in> set roots"
    obtain rs where rs: "\<forall>s \<in> set rs. clean_name s" "resolve c [root] = render rs"
      using resolve_is_render[of c "[root]"] by blast
    have ne: "rs \<noteq> []" using assms in_roots rs segments_render[OF rs(1)] by auto
    have "within_root c root p \<longleftrightarrow> prefix rs ps"
      using rs ps by (simp add: within_root_def segments_render)
    then show "(startsWith (render ps) (normalize (resolve c [root]) @ sep) \<or>
       render ps = normalize (resolve c [root])) \<longleftrightarrow> within_root c root p"
      using sandbox_test_iff_prefix[OF rs(1) ps(1) ne] rs normalize_render by simp
  qed
  show ?thesis
    unfolding validatePathAccess_iff Let_def n using each ps(2) by auto
qed

lemmas path_eval = resolve_def normalize_def normalizeString_def normalizeSegments_def
  norm_step_def isAbsolute_def startsWith_def sep_def segments_def

text \<open>
  Claim C1 holds for every root but the root directory itself. With the root \<^verbatim>\<open>/\<close> the
  path \<^verbatim>\<open>/etc/hosts\<close> lies within the root, yet it is rejected: the root followed by
  the separator is \<^verbatim>\<open>//\<close>, which starts no normalized path.
\<close>

theorem C1_root_directory_rejects_its_descendants:
  "within_root c ''/'' ''/etc/hosts'' \<and>
   validatePathAccess c ''/etc/hosts'' [''/''] = Inl (OutsideSandbox ''/etc/hosts'')"
  by (simp add: within_root_def validatePathAccess_def path_eval)

text \<open>The example of the claim: the root \<^verbatim>\<open>/root\<close> does not admit \<^verbatim>\<open>/root2\<close>.\<close>

lemma root_does_not_admit_root2:
  "validatePathAccess c ''/root2/x'' [''/root''] = Inl (OutsideSandbox ''/root2/x'') \<and>
   validatePathAccess c ''/root/a/../b'' [''/root''] = Inr ''/root/b''"
  by (simp add: validatePathAccess_def path_eval)

subsection \<open>Regular expressions, search and patterns\<close>

lemmas regex_eval = RegExp_new_def RegExp_test_def search_source_def escapeRegExp_def
  syntax_chars_def backslash_def canonicalize_def toUpperAscii_def lower_letters_def
  upper_letters_def lineTerminator_def isWordChar_def first_char_def

text \<open>
  Claim C2 fails on the code. The file has the two lines \<^verbatim>\<open>foo\<close> and \<^verbatim>\<open>foo\<close>, the query is
  \<^verbatim>\<open>foo\<close>. Each line matches the query, but only line 1 yields a match: the one
  expression has the flag \<^verbatim>\<open>g\<close>, so after the match on line 1 its \<open>lastIndex\<close> is 3 and
  the test of line 2 starts behind the text.
\<close>

theorem C2_second_of_two_matching_lines_is_missed:
  "line_matches ''foo'' False False ''foo'' \<and>
   search_content ''/r/a.txt'' (''foo'' @ [CHR 0x0A] @ ''foo'') ''foo'' False False 2 [] =
     Inr [\<lparr>sr_file = ''/r/a.txt'', sr_line = 1, sr_content = ''foo'',
           sr_before = [], sr_after = [''foo'']\<rparr>]"
  by (simp add: line_matches_def search_content_def regex_eval js_slice_def)

subsection \<open>RangeReader\<close>

lemma js_slice_take_drop:
  assumes "0 \<le> s" "0 \<le> e" "e \<le> int (length xs)"
  shows "js_slice xs s e = take (nat (e - s)) (drop (nat s) xs)"
proof (cases "s \<le> int (length xs)")
  case True
  then show ?thesis using assms by (simp add: js_slice_def Let_def min_def)
next
  case False
  then have "drop (nat s) xs = []" "drop (length xs) xs = []" by simp_all
  then show ?thesis using assms False by (simp add: js_slice_def Let_def min_def)
qed

lemma range_of_lines_slice:
  assumes "\<forall>e. el = Some e \<longrightarrow> 0 \<le> e"
  shows "range_of_lines content sl el =
     (let lines = split_on CHR 0x0A content;
          start = max 0 ((case sl of None \<Rightarrow> 1 | Some s \<Rightarrow> s) - 1);
          end = min (int (length lines)) (case el of None \<Rightarrow> int (length lines) | Some e \<Rightarrow> e)
      in join_with [CHR 0x0A] (take (nat (end - start)) (drop (nat start) lines)))"
proof -
  let ?lines = "split_on CHR 0x0A content"
  let ?start = "max 0 ((case sl of None \<Rightarrow> 1 | Some s \<Rightarrow> s) - 1)"
  let ?end = "min (int (length ?lines)) (case el of None \<Rightarrow> int (length ?lines) | Some e \<Rightarrow> e)"
  have "0 \<le> ?start" by simp
  moreover have "0 \<le> ?end" using assms by (cases el) auto
  moreover have "?end \<le> int (length ?lines)" by simp
  ultimately have "js_slice ?lines ?start ?end = take (nat (?end - ?start)) (drop (nat ?start) ?lines)"
    by (rule js_slice_take_drop)
  then show ?thesis by (simp add: range_of_lines_def Let_def)
qed

lemma range_2_3:
  assumes "split_on CHR 0x0A content = l1 # l2 # l3 # rest"
  shows "range_of_lines content (Some 2) (Some 3) = l2 @ [CHR 0x0A] @ l3"
  using assms by (simp add: range_of_lines_def js_slice_def Let_def min_def)

text \<open>
  The tool passes no line number below 1: \<open>parseInput\<close> raises a smaller one to 1.
\<close>

lemma parseInput_range_floor:
  assumes "parseInput input = Inr params"
  shows "(\<forall>s. startLine params = Some s \<longrightarrow> 1 \<le> s) \<and> (\<forall>e. endLine params = Some e \<longrightarrow> 1 \<le> e)"
  using assms by (auto simp: parseInput_def split: sum.splits if_splits)

text \<open>
  Claim C6. With no range the whole content is returned. With a range, the result is
  the lines from \<open>start = max 0 (startLine - 1)\<close> inclusive to
  \<open>end = min totalLines endLine\<close> exclusive (a missing start line counts as 1, a missing
  end line as the number of lines), joined by the line separator; the end line, when
  given, is not negative, as it is in every range the tool passes. The range 2 to 3 of a
  content of three lines or more is exactly its second and its third line, whatever
  follows them.
\<close>

theorem C6_ranged_read:
  assumes "readFile w filePath enc = (Inr content, w1)"
  shows "readFileContent w filePath None None enc = (Inr content, w1) \<and>
         ((sl \<noteq> None \<or> el \<noteq> None) \<and> (\<forall>e. el = Some e \<longrightarrow> 0 \<le> e) \<longrightarrow>
            readFileContent w filePath sl el enc =
              (let lines = split_on CHR 0x0A content;
                   start = max 0 ((case sl of None \<Rightarrow> 1 | Some s \<Rightarrow> s) - 1);
                   end = min (int (length lines))
                           (case el of None \<Rightarrow> int (length lines) | Some e \<Rightarrow> e)
               in (Inr (join_with [CHR 0x0A] (take (nat (end - start)) (drop (nat start) lines))), w1))) \<and>
         (\<forall>l1 l2 l3 rest. split_on CHR 0x0A content = l1 # l2 # l3 # rest \<longrightarrow>
            readFileContent w filePath (Some 2) (Some 3) enc = (Inr (l2 @ [CHR 0x0A] @ l3), w1))"
proof (intro conjI impI allI)
  show "readFileContent w filePath None None enc = (Inr content, w1)"
    using assms by (simp add: readFileContent_def)
next
  assume h: "(sl \<noteq> None \<or> el \<noteq> None) \<and> (\<forall>e. el = Some e \<longrightarrow> 0 \<le> e)"
  then have "readFileContent w filePath sl el enc =
      (Inr (range_of_lines content sl el), w1)"
    using assms by (auto simp: readFileContent_def)
  then show "readFileContent w filePath sl el enc =
              (let lines = split_on CHR 0x0A content;
                   start = max 0 ((case sl of None \<Rightarrow> 1 | Some s \<Rightarrow> s) - 1);
                   end = min (int (length lines))
                           (case el of None \<Rightarrow> int (length lines) | Some e \<Rightarrow> e)
               in (Inr (join_with [CHR 0x0A] (take (nat (end - start)) (drop (nat start) lines))), w1))"
    using range_of_lines_slice[of el content sl] h by (simp add: Let_def)
next
  fix l1 l2 l3 rest
  assume "split_on CHR 0x0A content = l1 # l2 # l3 # rest"
  then show "readFileContent w filePath (Some 2) (Some 3) enc = (Inr (l2 @ [CHR 0x0A] @ l3), w1)"
    using assms by (simp add: readFileContent_def range_2_3)
qed

theorem C6_ranged_read_witness:
  "readFile demo_world ''/r/a.txt'' ''utf-8'' =
     (Inr (''x'' @ [CHR 0x0A] @ ''foo'' @ [CHR 0x0A] @ ''y''), tick (EvReadFile ''/r/a.txt'') demo_world) \<and>
   readFileContent demo_world ''/r/a.txt'' (Some 2) (Some 3) ''utf-8'' =
     (Inr (''foo'' @ [CHR 0x0A] @ ''y''), tick (EvReadFile ''/r/a.txt'') demo_world) \<and>
   readFileContent demo_world ''/r/a.txt'' (Some 2) None ''utf-8'' =
     (Inr (''foo'' @ [CHR 0x0A] @ ''y''), tick (EvReadFile ''/r/a.txt'') demo_world) \<and>
   readFileContent demo_world ''/r/a.txt'' None None ''utf-8'' =
     (Inr (''x'' @ [CHR 0x0A] @ ''foo'' @ [CHR 0x0A] @ ''y''), tick (EvReadFile ''/r/a.txt'') demo_world)"
proof -
  let ?c = "''x'' @ [CHR 0x0A] @ ''foo'' @ [CHR 0x0A] @ ''y''"
  let ?w1 = "tick (EvReadFile ''/r/a.txt'') demo_world"
  have rd: "readFile demo_world ''/r/a.txt'' ''utf-8'' = (Inr ?c, ?w1)"
    by (simp add: readFile_def demo_world_def LF_def)
  have sp: "split_on CHR 0x0A ?c = ''x'' # ''foo'' # ''y'' # []" by simp
  note t = C6_ranged_read[OF rd]
  have a: "readFileContent demo_world ''/r/a.txt'' (Some 2) (Some 3) ''utf-8'' = (Inr (''foo'' @ [CHR 0x0A] @ ''y''), ?w1)"
    using t[of None None] sp by blast
  have b: "readFileContent demo_world ''/r/a.txt'' (Some 2) None ''utf-8'' = (Inr (''foo'' @ [CHR 0x0A] @ ''y''), ?w1)"
    using t[of "Some 2" None] by (simp add: Let_def)
  have c: "readFileContent demo_world ''/r/a.txt'' None None ''utf-8'' = (Inr ?c, ?w1)"
    using t[of None None] by blast
  show ?thesis using rd a b c by blast
qed

text \<open>
  The end of a range is clamped to the number of lines: of a content of two lines the
  range 2 to 3 is the second line, as the formula says.
\<close>

lemma range_2_3_of_two_lines:
  "length (split_on CHR 0x0A (''a'' @ [CHR 0x0A] @ ''b'')) = 2 \<and>
   range_of_lines (''a'' @ [CHR 0x0A] @ ''b'') (Some 2) (Some 3) = ''b''"
  by (simp add: range_of_lines_def js_slice_def)

subsection \<open>The trace of file reads\<close>

lemma reads_append: "reads (a @ b) = reads a @ reads b"
  by (induction a rule: reads.induct) auto

lemma pathExists_reads: "reads (trace (snd (pathExists w p))) = reads (trace w)"
  by (simp add: pathExists_def tick_def reads_append)

lemma getFileInfo_reads: "reads (trace (snd (getFileInfo w p))) = reads (trace w)"
  by (auto simp: getFileInfo_def stat_def tick_def reads_append Let_def
      split: prod.splits option.splits sum.splits)

lemma readdir_reads: "reads (trace (snd (readdir w p))) = reads (trace w)"
  by (simp add: readdir_def tick_def reads_append)

lemma loadIgnoreMatcher_reads:
  "reads (trace (snd (loadIgnoreMatcher w root))) = reads (trace w) @ [join root ''.gitignore'']"
  by (auto simp: loadIgnoreMatcher_def readFile_def tick_def reads_append split: sum.splits)

text \<open>Unfolding the small file system.\<close>

lemmas demo_eval = demo_world_def demo_file_def demo_dir_def LF_def pathExists_def stat_def
  readFile_def readdir_def tick_def Date_now_def Let_def path_eval validatePathAccess_def
  LRUCache_get_def LRUCache_set_def LRUCache_new_def Map_get_def Map_has_def Map_delete_def
  Map_size_def Map_firstKey_def

lemmas tool_eval = demo_eval resolveFilePath_def getFileInfo_def basename_def extname_def
  readSingleFile_def readFileContent_def range_of_lines_def js_slice_def addLineNumbers_def
  show_int_def show_nat.simps demo_params_def relative_def

subsection \<open>DirectoryWalker: what a walk preserves\<close>

text \<open>
  The two walks unfold only where a proof asks for it. The lemmas below carry an
  invariant \<open>I\<close> of the world, a property \<open>G\<close> of the directories entered, a property
  \<open>N\<close> of the names a directory lists and a property \<open>R\<close> of the entries listed through
  a whole walk, given that single system calls respect them.
\<close>

declare walkDirectory.simps [simp del] walkEntries.simps [simp del]
declare getDirectoryTree.simps [simp del] treeChildren.simps [simp del]

lemma walk_general:
  assumes rd: "\<And>w p. I w \<Longrightarrow> I (snd (readdir w p))"
      and gi: "\<And>w p. I w \<Longrightarrow> I (snd (getFileInfo w p))"
      and names: "\<And>w d es w1. I w \<Longrightarrow> G d \<Longrightarrow> readdir w d = (Inr es, w1) \<Longrightarrow> \<forall>e \<in> set es. N e"
      and stepG: "\<And>w d e. I w \<Longrightarrow> G d \<Longrightarrow> N e \<Longrightarrow>
                    \<not> wo_matcher o0 (relative (cwd w) (wo_basePath o0) (join d e)) \<Longrightarrow> G (join d e)"
      and giR: "\<And>w p fi w1. I w \<Longrightarrow> G p \<Longrightarrow> getFileInfo w p = (Inr fi, w1) \<Longrightarrow> R fi"
  shows "opts = o0 \<Longrightarrow> st_ok I R st \<Longrightarrow> G dirPath \<Longrightarrow> st_ok I R (walkDirectory opts dirPath d st)"
    and "opts = o0 \<Longrightarrow> st_ok I R st \<Longrightarrow> G dirPath \<Longrightarrow> \<forall>e \<in> set es. N e \<Longrightarrow>
           st_ok I R (walkEntries opts dirPath d es st)"
proof (induction opts dirPath d st and opts dirPath d es st rule: walkDirectory_walkEntries.induct)
  case (1 opts dirPath currentDepth st)
  show ?case
  proof (cases "currentDepth > wo_maxDepth opts")
    case True
    then show ?thesis using "1.prems" by (simp add: walkDirectory.simps)
  next
    case False
    obtain r w1 where R: "readdir (snd st) dirPath = (r, w1)" by (cases "readdir (snd st) dirPath")
    have I0: "I (snd st)" using "1.prems"(2) by (simp add: st_ok_def)
    have I1: "I w1" using rd[OF I0, of dirPath] R by simp
    have ok1: "st_ok I R (fst st, w1)" using "1.prems"(2) I1 by (simp add: st_ok_def)
    show ?thesis
    proof (cases r)
      case (Inl msg)
      then show ?thesis using False R ok1 by (simp add: walkDirectory.simps)
    next
      case (Inr entries)
      have "\<forall>e \<in> set entries. N e"
        using names[OF I0 "1.prems"(3)] R Inr by simp
      then show ?thesis
        using False R Inr "1.IH"[OF False R[symmetric] Inr "1.prems"(1) ok1 "1.prems"(3)]
        by (simp add: walkDirectory.simps)
    qed
  qed
next
  case (2 opts dirPath currentDepth st)
  then show ?case by (simp add: walkEntries.simps)
next
  case (3 opts dirPath currentDepth entry rest st)
  let ?x = "join dirPath entry"
  let ?xa = "relative (cwd (snd st)) (wo_basePath opts) ?x"
  note o = "3.prems"(1) and ok0 = "3.prems"(2) and Gd = "3.prems"(3)
  have Nrest: "\<forall>e \<in> set rest. N e" and Ne: "N entry" using "3.prems"(4) by simp_all
  have I0: "I (snd st)" using ok0 by (simp add: st_ok_def)
  show ?case
  proof (cases "\<not> wo_includeHidden opts \<and> startsWith entry ''.''")
    case True
    then show ?thesis using "3.IH"(1)[OF True o ok0 Gd Nrest] by (simp add: walkEntries.simps)
  next
    case nh: False
    show ?thesis
    proof (cases "wo_matcher opts ?xa")
      case True
      then show ?thesis
        using nh "3.IH"(2)[OF nh refl refl True o ok0 Gd Nrest]
        by (simp add: walkEntries.simps Let_def)
    next
      case nm: False
      have Gx: "G ?x" using stepG[OF I0 Gd Ne] nm o by simp
      obtain r w1 where GI: "getFileInfo (snd st) ?x = (r, w1)"
        by (cases "getFileInfo (snd st) ?x")
      have I1: "I w1" using gi[OF I0, of ?x] GI by simp
      have ok1: "st_ok I R (fst st, w1)" using ok0 I1 by (simp add: st_ok_def)
      show ?thesis
      proof (cases r)
        case (Inl e)
        then show ?thesis using nh nm GI ok1 by (auto simp: walkEntries.simps Let_def)
      next
        case (Inr b)
        have Rb: "R b" using giR[OF I0 Gx] GI Inr by simp
        have ok2: "st_ok I R (fst st @ [b], w1)" using ok0 I1 Rb by (simp add: st_ok_def)
        show ?thesis
        proof (cases "fi_isDirectory b")
          case isdir: True
          let ?st1 = "(if wo_recursive opts
                       then walkDirectory opts ?x (currentDepth + 1) (fst st @ [b], w1)
                       else (fst st @ [b], w1))"
          have "st_ok I R ?st1"
          proof (cases "wo_recursive opts")
            case True
            then show ?thesis
              using "3.IH"(3)[OF nh refl refl nm GI[symmetric] Inr isdir True o ok2 Gx] by simp
          next
            case False
            then show ?thesis using ok2 by simp
          qed
          then have "st_ok I R (walkEntries opts dirPath currentDepth rest ?st1)"
            using "3.IH"(4)[OF nh refl refl nm GI[symmetric] Inr isdir o _ Gd Nrest] by simp
          then show ?thesis
            using nh nm GI Inr isdir by (auto simp: walkEntries.simps Let_def)
        next
          case nodir: False
          let ?m = "(case wo_pattern opts of None \<Rightarrow> Inr True
                     | Some pattern \<Rightarrow>
                         if pattern = [] then Inr True
                         else matchesPattern (regexp_engine w1) (fi_name b) pattern)"
          show ?thesis
          proof (cases ?m)
            case (Inl e)
            then show ?thesis using nh nm GI Inr nodir ok1 by (auto simp: walkEntries.simps Let_def)
          next
            case m: (Inr ba)
            show ?thesis
            proof (cases ba)
              case True
              then show ?thesis
                using "3.IH"(5)[OF nh refl refl nm GI[symmetric] Inr nodir m _ o ok2 Gd Nrest]
                  nh nm GI Inr nodir m by (auto simp: walkEntries.simps Let_def)
            next
              case False
              then show ?thesis
                using "3.IH"(6)[OF nh refl refl nm GI[symmetric] Inr nodir m _ o ok1 Gd Nrest]
                  nh nm GI Inr nodir m by (auto simp: walkEntries.simps Let_def)
            qed
          qed
        qed
      qed
    qed
  qed
qed


lemma set_insert_by: "set (insert_by cmp x xs) = insert x (set xs)"
  by (induction xs) auto

lemma set_sort_by: "set (sort_by cmp xs) = set xs"
  unfolding sort_by_def by (induction xs) (simp_all add: set_insert_by)

lemma tree_general:
  assumes rd: "\<And>w p. I w \<Longrightarrow> I (snd (readdir w p))"
      and gi: "\<And>w p. I w \<Longrightarrow> I (snd (getFileInfo w p))"
      and names: "\<And>w d es w1. I w \<Longrightarrow> G d \<Longrightarrow> readdir w d = (Inr es, w1) \<Longrightarrow> \<forall>e \<in> set es. N e"
      and stepG: "\<And>w d e. I w \<Longrightarrow> G d \<Longrightarrow> N e \<Longrightarrow>
                    \<not> ig (relative (cwd w) b0 (join d e)) \<Longrightarrow> G (join d e)"
      and giR: "\<And>w p fi w1. I w \<Longrightarrow> G p \<Longrightarrow> getFileInfo w p = (Inr fi, w1) \<Longrightarrow> R fi"
  shows "matcher = Some ig \<Longrightarrow> basePath = b0 \<Longrightarrow> I w \<Longrightarrow> G rootPath \<Longrightarrow>
           I (snd (getDirectoryTree options rootPath d matcher basePath w)) \<and>
           (\<forall>node. fst (getDirectoryTree options rootPath d matcher basePath w) = Inr node
                    \<longrightarrow> tree_ok R [node])"
    and "m = ig \<Longrightarrow> basePath = b0 \<Longrightarrow> I w \<Longrightarrow> G rootPath \<Longrightarrow> \<forall>e \<in> set es. N e \<Longrightarrow>
           tree_ok R cs \<Longrightarrow>
           I (snd (treeChildren options rootPath d m basePath es cs w)) \<and>
           (\<forall>xs. fst (treeChildren options rootPath d m basePath es cs w) = Inr xs
                  \<longrightarrow> tree_ok R xs)"
proof (induction options rootPath d matcher basePath w and options rootPath d m basePath es cs w
       rule: getDirectoryTree_treeChildren.induct)
  case (1 options rootPath currentDepth matcher basePath w)
  note mt = "1.prems"(1) and bp = "1.prems"(2) and I0 = "1.prems"(3) and Gr = "1.prems"(4)
  obtain r w1 where GI: "getFileInfo w rootPath = (r, w1)" by (cases "getFileInfo w rootPath")
  have I1: "I w1" using gi[OF I0, of rootPath] GI by simp
  show ?case
  proof (cases r)
    case (Inl e)
    then show ?thesis using mt GI I1 by (simp add: getDirectoryTree.simps)
  next
    case (Inr b)
    have Rb: "R b" using giR[OF I0 Gr] GI Inr by simp
    show ?thesis
    proof (cases "\<not> fi_isDirectory b \<or> or_default (to_maxDepth options) 10 \<le> currentDepth")
      case True
      then show ?thesis using mt GI Inr I1 Rb
        by (auto simp: getDirectoryTree.simps tree_ok_def)
    next
      case deep: False
      obtain r2 w2 where RD: "readdir w1 rootPath = (r2, w2)" by (cases "readdir w1 rootPath")
      have I2: "I w2" using rd[OF I1, of rootPath] RD by simp
      show ?thesis
      proof (cases r2)
        case (Inl msg)
        then show ?thesis using mt GI Inr deep RD I2
          by (auto simp: getDirectoryTree.simps)
      next
        case es: (Inr entries)
        have Nes: "\<forall>e \<in> set entries. N e" using names[OF I1 Gr] RD es by simp
        have m0: "(ig, w) = (case matcher of None \<Rightarrow> loadIgnoreMatcher w basePath | Some m \<Rightarrow> (m, w))"
          using mt by simp
        have IH: "I (snd (treeChildren options rootPath currentDepth ig basePath entries [] w2)) \<and>
           (\<forall>xs. fst (treeChildren options rootPath currentDepth ig basePath entries [] w2) = Inr xs
                  \<longrightarrow> tree_ok R xs)"
          using "1.IH"[OF m0 GI[symmetric] Inr deep RD[symmetric] es refl bp I2 Gr Nes]
          by (simp add: tree_ok_def)
        obtain r3 w3 where TC: "treeChildren options rootPath currentDepth ig basePath entries [] w2 = (r3, w3)"
          by (cases "treeChildren options rootPath currentDepth ig basePath entries [] w2")
        show ?thesis
        proof (cases r3)
          case (Inl e)
          then show ?thesis using mt GI Inr deep RD es TC IH
            by (auto simp: getDirectoryTree.simps)
        next
          case cs: (Inr xs)
          then have "tree_ok R xs" using IH TC by simp
          then show ?thesis using mt GI Inr deep RD es TC cs IH Rb
            by (auto simp: getDirectoryTree.simps tree_ok_def set_sort_by)
        qed
      qed
    qed
  qed
next
  case (2 options rootPath currentDepth ignoreMatcher basePath cs w)
  then show ?case by (simp add: treeChildren.simps)
next
  case (3 options rootPath currentDepth ignoreMatcher basePath entry rest cs w)
  let ?x = "join rootPath entry"
  let ?xa = "relative (cwd w) basePath ?x"
  note mt = "3.prems"(1) and bp = "3.prems"(2) and I0 = "3.prems"(3) and Gr = "3.prems"(4)
    and ok = "3.prems"(6)
  have Nrest: "\<forall>e \<in> set rest. N e" and Ne: "N entry" using "3.prems"(5) by simp_all
  show ?case
  proof (cases "\<not> or_default (to_includeHidden options) False \<and> startsWith entry ''.''")
    case True
    then show ?thesis using "3.IH"(1)[OF True mt bp I0 Gr Nrest ok]
      by (simp add: treeChildren.simps)
  next
    case nh: False
    show ?thesis
    proof (cases "ignoreMatcher ?xa")
      case True
      then show ?thesis using nh "3.IH"(2)[OF nh refl refl True mt bp I0 Gr Nrest ok]
        by (simp add: treeChildren.simps Let_def)
    next
      case nm: False
      have Gx: "G ?x" using stepG[OF I0 Gr Ne] nm mt bp by simp
      have one: "I (snd (getDirectoryTree options ?x (currentDepth + 1) (Some ignoreMatcher) basePath w)) \<and>
           (\<forall>node. fst (getDirectoryTree options ?x (currentDepth + 1) (Some ignoreMatcher) basePath w) = Inr node
                    \<longrightarrow> tree_ok R [node])"
        using "3.IH"(3)[OF nh refl refl nm _ bp I0 Gx] mt by simp
      obtain r w1 where GT: "getDirectoryTree options ?x (currentDepth + 1) (Some ignoreMatcher) basePath w = (r, w1)"
        by (cases "getDirectoryTree options ?x (currentDepth + 1) (Some ignoreMatcher) basePath w")
      have I1: "I w1" using one GT by simp
      show ?thesis
      proof (cases r)
        case (Inl e)
        then show ?thesis using nh nm GT I1 by (auto simp: treeChildren.simps Let_def)
      next
        case (Inr child)
        then have "tree_ok R [child]" using one GT by simp
        then have ok2: "tree_ok R (cs @ [child])" using ok by (simp add: tree_ok_def)
        show ?thesis
          using "3.IH"(4)[OF nh refl refl nm GT[symmetric] Inr mt bp I1 Gr Nrest ok2]
            nh nm GT Inr by (auto simp: treeChildren.simps Let_def)
      qed
    qed
  qed
qed

text \<open>Unfolding a walk on the small file system.\<close>

lemma walkDirectory_enter:
  "\<not> currentDepth > wo_maxDepth opts \<Longrightarrow>
   walkDirectory opts dirPath currentDepth st =
     (case readdir (snd st) dirPath of
        (Inl msg, w1) \<Rightarrow> (fst st, w1)
      | (Inr entries, w1) \<Rightarrow> walkEntries opts dirPath currentDepth entries (fst st, w1))"
  by (simp add: walkDirectory.simps)

lemmas walk_eval = listFiles_def loadIgnoreMatcher_def join_def relative_def
  walkEntries.simps or_default_def getFileInfo_def basename_def extname_def
  matchesPattern_def glob_source_def replace_char_def regex_eval sort_by_def
  compareEntries_def demo_eval walkDirectory_enter

subsection \<open>DirectoryWalker: the name pattern\<close>

text \<open>
  Claim C8 fails on the code. The expression built from the pattern is not anchored, so
  the pattern \<^verbatim>\<open>*.js\<close> accepts the name \<^verbatim>\<open>notes.json\<close>, which the glob over the whole
  name does not match; and the listing of the small file system with the pattern
  \<^verbatim>\<open>*.tx\<close> holds \<^verbatim>\<open>a.txt\<close>, which that glob does not match either.
\<close>

theorem C8_pattern_matches_inside_the_name:
  "matchesPattern engine ''notes.json'' ''*.js'' = Inr True \<and>
   \<not> glob_match ''*.js'' ''notes.json'' \<and>
   map fi_name (fst (listFiles demo_world ''/r'' tx_options)) = [''a.txt''] \<and>
   \<not> glob_match ''*.tx'' ''a.txt''"
proof -
  have "matchesPattern engine ''notes.json'' ''*.js'' = Inr True"
    by (simp add: matchesPattern_def glob_source_def replace_char_def regex_eval)
  moreover have "\<not> glob_match ''*.js'' ''notes.json''"
    by (simp add: toUpperAscii_def lower_letters_def upper_letters_def)
  moreover have "map fi_name (fst (listFiles demo_world ''/r'' tx_options)) = [''a.txt'']"
    by (simp add: walk_eval tx_options_def)
  moreover have "\<not> glob_match ''*.tx'' ''a.txt''"
    by (simp add: toUpperAscii_def lower_letters_def upper_letters_def)
  ultimately show ?thesis by simp
qed

subsection \<open>IgnoreMatcher: when the ignore file is read\<close>

lemma walkDirectory_reads:
  "reads (trace (snd (walkDirectory opts dirPath d st))) = reads (trace (snd st))"
proof -
  define X where "X = reads (trace (snd st))"
  have "st_ok (\<lambda>w. reads (trace w) = X) (\<lambda>_. True) (walkDirectory opts dirPath d st)"
    by (rule walk_general(1)[where G = "\<lambda>_. True" and N = "\<lambda>_. True" and ?o0.0 = opts])
       (simp_all add: readdir_reads getFileInfo_reads st_ok_def X_def)
  then show ?thesis by (simp add: st_ok_def X_def)
qed

lemma listFiles_reads:
  "reads (trace (snd (listFiles w rootPath options))) =
     reads (trace w) @ [join rootPath ''.gitignore'']"
  using loadIgnoreMatcher_reads[of w rootPath]
  by (auto simp: listFiles_def walkDirectory_reads split: prod.splits)
     (metis snd_conv walkDirectory_reads)

lemma getDirectoryTree_top:
  "getDirectoryTree options rootPath d None basePath w =
     (case loadIgnoreMatcher w basePath of
        (ig, w0) \<Rightarrow> getDirectoryTree options rootPath d (Some ig) basePath w0)"
  by (cases "loadIgnoreMatcher w basePath")
     (simp add: getDirectoryTree.simps[of options rootPath d None]
                getDirectoryTree.simps[of options rootPath d "Some _"])

lemma getDirectoryTree_Some_reads:
  "reads (trace (snd (getDirectoryTree options rootPath d (Some ig) basePath w))) = reads (trace w)"
proof -
  define X where "X = reads (trace w)"
  have "reads (trace (snd (getDirectoryTree options rootPath d (Some ig) basePath w))) = X \<and>
        (\<forall>node. fst (getDirectoryTree options rootPath d (Some ig) basePath w) = Inr node
                    \<longrightarrow> tree_ok (\<lambda>_. True) [node])"
    by (rule tree_general(1)[where I = "\<lambda>w. reads (trace w) = X" and G = "\<lambda>_. True"
          and N = "\<lambda>_. True" and ig = ig and ?b0.0 = basePath])
       (simp_all add: readdir_reads getFileInfo_reads X_def)
  then show ?thesis by (simp add: X_def)
qed

lemma getDirectoryTree_reads:
  "reads (trace (snd (getDirectoryTree options rootPath d None basePath w))) =
     reads (trace w) @ [join basePath ''.gitignore'']"
  using loadIgnoreMatcher_reads[of w basePath]
  by (auto simp: getDirectoryTree_top getDirectoryTree_Some_reads split: prod.splits)

text \<open>
  Claim C7, as amended. Every call of \<open>listFiles\<close> reads the ignore file of its root
  exactly once, and so does every outermost call of \<open>getDirectoryTree\<close> for its base
  path; no other file content is read by the walk. Nothing is kept between calls.
\<close>

theorem C7_ignore_file_is_read_once_in_every_call:
  "reads (trace (snd (listFiles w rootPath options))) =
     reads (trace w) @ [join rootPath ''.gitignore''] \<and>
   reads (trace (snd (getDirectoryTree topts rootPath d None basePath w))) =
     reads (trace w) @ [join basePath ''.gitignore'']"
  by (simp add: listFiles_reads getDirectoryTree_reads)

text \<open>
  The claim as stated fails: the second listing of the same root reads the ignore file
  a second time.
\<close>

theorem C7_second_listing_reads_the_ignore_file_again:
  "reads (trace (snd (listFiles (snd (listFiles demo_world ''/r'' demo_options)) ''/r'' demo_options))) =
     [''/r/.gitignore'', ''/r/.gitignore'']"
  by (simp add: listFiles_reads demo_world_def join_def path_eval)


subsection \<open>DirectoryWalker: ignored directories are pruned\<close>

lemma admitted_step:
  assumes "admitted ig rs d" and "\<forall>s \<in> set rs. clean_name s" and "clean_name e"
    and "\<not> ig (relative c (render rs) (join d e))"
  shows "admitted ig rs (join d e)"
proof -
  obtain ns where d: "d = render (rs @ ns)" and cl: "\<forall>n \<in> set ns. clean_name n"
    and un: "\<forall>k. 0 < k \<and> k \<le> length ns \<longrightarrow> \<not> ig (join_with ''/'' (take k ns))"
    using assms(1) by (auto simp: admitted_def)
  have all: "\<forall>s \<in> set (rs @ ns). clean_name s" using assms(2) cl by auto
  have j: "join d e = render (rs @ (ns @ [e]))"
    using join_render[OF all assms(3)] by (simp add: d)
  have all2: "\<forall>s \<in> set (rs @ (ns @ [e])). clean_name s" using all assms(3) by auto
  have "relative c (render rs) (join d e) = join_with ''/'' (ns @ [e])"
    unfolding j using relative_render[OF all2] .
  then have new: "\<not> ig (join_with ''/'' (ns @ [e]))" using assms(4) by simp
  have "\<forall>k. 0 < k \<and> k \<le> length (ns @ [e]) \<longrightarrow> \<not> ig (join_with ''/'' (take k (ns @ [e])))"
  proof (intro allI impI)
    fix k assume k: "0 < k \<and> k \<le> length (ns @ [e])"
    show "\<not> ig (join_with ''/'' (take k (ns @ [e])))"
    proof (cases "k \<le> length ns")
      case True
      then show ?thesis using un k by simp
    next
      case False
      then have "take k (ns @ [e]) = ns @ [e]" using k by simp
      then show ?thesis using new by simp
    qed
  qed
  then show ?thesis using j cl assms(3) unfolding admitted_def
    by (intro exI[of _ "ns @ [e]"]) auto
qed

lemma admitted_not_below_ignored:
  assumes "admitted ig rs p" and "\<forall>s \<in> set rs. clean_name s"
    and "rel \<noteq> []" and "ig (join_with ''/'' rel)"
  shows "\<not> prefix (rs @ rel) (segments p)"
proof
  assume pre: "prefix (rs @ rel) (segments p)"
  obtain ns where p: "p = render (rs @ ns)" and cl: "\<forall>n \<in> set ns. clean_name n"
    and un: "\<forall>k. 0 < k \<and> k \<le> length ns \<longrightarrow> \<not> ig (join_with ''/'' (take k ns))"
    using assms(1) by (auto simp: admitted_def)
  have "segments p = rs @ ns"
    unfolding p using assms(2) cl by (intro segments_render) auto
  then have "prefix rel ns" using pre by simp
  then obtain zs where ns: "ns = rel @ zs" by (auto simp: prefix_def)
  have "take (length rel) ns = rel" by (simp add: ns)
  moreover have "0 < length rel \<and> length rel \<le> length ns" using assms(3) ns by simp
  ultimately have "\<not> ig (join_with ''/'' rel)" using un by metis
  then show False using assms(4) by simp
qed

lemma admitted_root: "admitted ig rs (render rs)"
  unfolding admitted_def by (intro exI[of _ "[]"]) simp



lemma set_Map_delete: "set (Map_delete m k) \<subseteq> set m"
  by (auto simp: Map_delete_def)

lemma set_Map_set: "set (Map_set m k v) \<subseteq> insert (k, v) (set m)"
  by (induction m) auto

lemma cache_paths_ok_get:
  assumes "cache_paths_ok c"
  shows "cache_paths_ok (snd (LRUCache_get c p now))"
    and "fst (LRUCache_get c p now) = Some v \<Longrightarrow> fi_path v = p"
proof -
  show "cache_paths_ok (snd (LRUCache_get c p now))"
  proof (cases "Map_get (cache c) p")
    case None
    then show ?thesis using assms by (simp add: LRUCache_get_def)
  next
    case (Some entry)
    then have "(p, entry) \<in> set (cache c)" by (simp add: Map_get_def map_of_SomeD)
    then have e: "fi_path (cvalue entry) = p" using assms by (auto simp: cache_paths_ok_def)
    have "set (Map_set (Map_delete (cache c) p) p entry) \<subseteq> insert (p, entry) (set (cache c))"
      using set_Map_set[of "Map_delete (cache c) p" p entry] set_Map_delete[of "cache c" p] by auto
    then show ?thesis
      using assms Some e set_Map_delete[of "cache c" p]
      by (auto simp: LRUCache_get_def cache_paths_ok_def)
  qed
  show "fst (LRUCache_get c p now) = Some v \<Longrightarrow> fi_path v = p"
  proof -
    assume a: "fst (LRUCache_get c p now) = Some v"
    then obtain entry where g: "Map_get (cache c) p = Some entry" and v: "v = cvalue entry"
      by (auto simp: LRUCache_get_def split: option.splits if_splits)
    then have "(p, entry) \<in> set (cache c)" by (simp add: Map_get_def map_of_SomeD)
    then show ?thesis using assms v by (auto simp: cache_paths_ok_def)
  qed
qed

lemma cache_paths_ok_set:
  assumes "cache_paths_ok c" and "fi_path v = p"
  shows "cache_paths_ok (LRUCache_set c p v now)"
proof -
  let ?e = "\<lparr>cvalue = v, expires = now + ttl c\<rparr>"
  let ?m1 = "(if Map_has (cache c) p then Map_delete (cache c) p else cache c)"
  let ?m2 = "Map_set ?m1 p ?e"
  have "set ?m1 \<subseteq> set (cache c)" using set_Map_delete[of "cache c" p] by auto
  then have m2: "set ?m2 \<subseteq> insert (p, ?e) (set (cache c))"
    using set_Map_set[of ?m1 p ?e] by auto
  have ok2: "\<forall>q \<in> set ?m2. fi_path (cvalue (snd q)) = fst q"
    using m2 assms by (auto simp: cache_paths_ok_def)
  have "set (cache (LRUCache_set c p v now)) \<subseteq> set ?m2"
  proof (cases "Map_size ?m2 > maxSize c")
    case False
    then have "cache (LRUCache_set c p v now) = ?m2" by (simp add: LRUCache_set_def Let_def)
    then show ?thesis by simp
  next
    case True
    show ?thesis
    proof (cases "Map_firstKey ?m2")
      case None
      then have "cache (LRUCache_set c p v now) = ?m2"
        using True by (simp add: LRUCache_set_def Let_def)
      then show ?thesis by simp
    next
      case (Some k)
      then have "cache (LRUCache_set c p v now) = Map_delete ?m2 k"
        using True by (simp add: LRUCache_set_def Let_def)
      then show ?thesis using set_Map_delete[of ?m2 k] by simp
    qed
  qed
  then show ?thesis using ok2 unfolding cache_paths_ok_def by blast
qed

lemma walk_inv_readdir: "walk_inv w0 w \<Longrightarrow> walk_inv w0 (snd (readdir w p))"
  by (simp add: walk_inv_def readdir_def tick_def)

lemma getFileInfo_ok:
  assumes "walk_inv w0 w"
  shows "walk_inv w0 (snd (getFileInfo w p))"
    and "getFileInfo w p = (Inr fi, w1) \<Longrightarrow> fi_path fi = p"
proof -
  have c0: "cache_paths_ok (metadataCache w)" using assms by (simp add: walk_inv_def)
  obtain r c1 where g: "LRUCache_get (metadataCache w) p (Date_now w) = (r, c1)"
    by (cases "LRUCache_get (metadataCache w) p (Date_now w)")
  have c1: "cache_paths_ok c1" using cache_paths_ok_get(1)[OF c0, of p "Date_now w"] g by simp
  show "walk_inv w0 (snd (getFileInfo w p))"
  proof (cases r)
    case (Some cached)
    then show ?thesis using assms g c1 by (simp add: getFileInfo_def walk_inv_def)
  next
    case None
    show ?thesis
    proof (cases "fs_stat w (length (trace w)) p")
      case (Inl msg)
      then show ?thesis using assms g None c1
        by (simp add: getFileInfo_def walk_inv_def stat_def tick_def)
    next
      case (Inr stats)
      then show ?thesis using assms g None cache_paths_ok_set[OF c1]
        by (simp add: getFileInfo_def walk_inv_def stat_def tick_def Let_def)
    qed
  qed
  show "getFileInfo w p = (Inr fi, w1) \<Longrightarrow> fi_path fi = p"
  proof -
    assume a: "getFileInfo w p = (Inr fi, w1)"
    show ?thesis
    proof (cases r)
      case (Some cached)
      then have "fi = cached" using a g by (simp add: getFileInfo_def)
      moreover have "fi_path cached = p"
        using cache_paths_ok_get(2)[OF c0, of p "Date_now w" cached] g Some by simp
      ultimately show ?thesis by simp
    next
      case None
      then show ?thesis using a g
        by (auto simp: getFileInfo_def stat_def tick_def Let_def split: sum.splits)
    qed
  qed
qed

lemma walk_inv_names:
  assumes "names_ok w0" and "walk_inv w0 w" and "readdir w d = (Inr es, w1)"
  shows "\<forall>e \<in> set es. clean_name e"
  using assms by (auto simp: names_ok_def walk_inv_def readdir_def)

lemma loadIgnoreMatcher_ok:
  assumes "walk_inv w0 w"
  shows "walk_inv w0 (snd (loadIgnoreMatcher w r))"
  using assms
  by (auto simp: loadIgnoreMatcher_def readFile_def tick_def walk_inv_def split: sum.splits)

lemma walk_inv_refl: "cache_paths_ok (metadataCache w) \<Longrightarrow> walk_inv w w"
  by (simp add: walk_inv_def)


text \<open>
  What the walks guarantee. Let the root be a normalized absolute path, let directories
  list clean names and let every cached entry be filed under its own path. If the matcher
  of the root, asked the way the walks ask it, about the root-relative path \<open>rel\<close> written
  without a closing separator, answers that the path is ignored, then no entry of the
  flat listing and no node of the nested tree has a path at or below \<open>rel\<close> under the
  root, whatever the options of the listing, its pattern included.
\<close>

lemma ignored_paths_are_pruned:
  assumes "rootPath = render rs" and "\<forall>s \<in> set rs. clean_name s"
      and "names_ok w" and "cache_paths_ok (metadataCache w)"
      and "ig = fst (loadIgnoreMatcher w rootPath)"
      and "rel \<noteq> []" and "ig (join_with ''/'' rel)"
  shows "(\<forall>fi \<in> set (fst (listFiles w rootPath options)).
            \<not> prefix (rs @ rel) (segments (fi_path fi))) \<and>
         (\<forall>node. fst (getDirectoryTree topts rootPath d None rootPath w) = Inr node \<longrightarrow>
            (\<forall>fi \<in> set (infos node). \<not> prefix (rs @ rel) (segments (fi_path fi))))"
proof -
  obtain w1 where L: "loadIgnoreMatcher w rootPath = (ig, w1)"
    using assms(5) by (cases "loadIgnoreMatcher w rootPath") simp
  have I1: "walk_inv w w1"
    using loadIgnoreMatcher_ok[OF walk_inv_refl[OF assms(4)], of rootPath] L by simp
  let ?R = "\<lambda>fi. admitted ig rs (fi_path fi)"
  have stepG: "\<And>w' d e. walk_inv w w' \<Longrightarrow> admitted ig rs d \<Longrightarrow> clean_name e \<Longrightarrow>
                 \<not> ig (relative (cwd w') rootPath (join d e)) \<Longrightarrow> admitted ig rs (join d e)"
    using admitted_step[where ig = ig and rs = rs] assms(1,2) by blast
  have giR: "\<And>w' p fi w2. walk_inv w w' \<Longrightarrow> admitted ig rs p \<Longrightarrow>
                getFileInfo w' p = (Inr fi, w2) \<Longrightarrow> admitted ig rs (fi_path fi)"
    using getFileInfo_ok(2) by simp
  have G0: "admitted ig rs rootPath" using admitted_root assms(1) by simp
  have final: "\<And>fi. admitted ig rs (fi_path fi) \<Longrightarrow> \<not> prefix (rs @ rel) (segments (fi_path fi))"
    using admitted_not_below_ignored[where ig = ig and rs = rs and rel = rel] assms(2,6,7) by blast
  \<comment> \<open>the flat listing\<close>
  let ?o = "\<lparr>wo_maxDepth = or_default (lo_maxDepth options) 10,
             wo_recursive = or_default (lo_recursive options) True,
             wo_includeHidden = or_default (lo_includeHidden options) False,
             wo_pattern = lo_pattern options,
             wo_matcher = ig, wo_basePath = rootPath\<rparr>"
  have "st_ok (walk_inv w) ?R (walkDirectory ?o rootPath 0 ([], w1))"
  proof (rule walk_general(1)[where G = "admitted ig rs" and N = clean_name and ?o0.0 = ?o])
    show "\<And>w' p. walk_inv w w' \<Longrightarrow> walk_inv w (snd (readdir w' p))"
      by (rule walk_inv_readdir)
    show "\<And>w' p. walk_inv w w' \<Longrightarrow> walk_inv w (snd (getFileInfo w' p))"
      by (rule getFileInfo_ok(1))
    show "\<And>w' d es w2. walk_inv w w' \<Longrightarrow> admitted ig rs d \<Longrightarrow>
            readdir w' d = (Inr es, w2) \<Longrightarrow> \<forall>e \<in> set es. clean_name e"
      using walk_inv_names[OF assms(3)] by blast
    show "\<And>w' d e. walk_inv w w' \<Longrightarrow> admitted ig rs d \<Longrightarrow> clean_name e \<Longrightarrow>
            \<not> wo_matcher ?o (relative (cwd w') (wo_basePath ?o) (join d e)) \<Longrightarrow>
            admitted ig rs (join d e)"
      using stepG by simp
    show "\<And>w' p fi w2. walk_inv w w' \<Longrightarrow> admitted ig rs p \<Longrightarrow>
            getFileInfo w' p = (Inr fi, w2) \<Longrightarrow> admitted ig rs (fi_path fi)"
      using giR .
    show "?o = ?o" ..
    show "st_ok (walk_inv w) ?R ([], w1)" using I1 by (simp add: st_ok_def)
    show "admitted ig rs rootPath" using G0 .
  qed
  then have "\<forall>fi \<in> set (fst (listFiles w rootPath options)). admitted ig rs (fi_path fi)"
    using L by (auto simp: listFiles_def st_ok_def set_sort_by split: prod.splits)
  then have flat: "\<forall>fi \<in> set (fst (listFiles w rootPath options)).
                     \<not> prefix (rs @ rel) (segments (fi_path fi))"
    using final by blast
  \<comment> \<open>the nested tree\<close>
  have "walk_inv w (snd (getDirectoryTree topts rootPath d (Some ig) rootPath w1)) \<and>
        (\<forall>node. fst (getDirectoryTree topts rootPath d (Some ig) rootPath w1) = Inr node
                    \<longrightarrow> tree_ok ?R [node])"
  proof (rule tree_general(1)[where G = "admitted ig rs" and N = clean_name and ig = ig
            and ?b0.0 = rootPath])
    show "\<And>w' p. walk_inv w w' \<Longrightarrow> walk_inv w (snd (readdir w' p))"
      by (rule walk_inv_readdir)
    show "\<And>w' p. walk_inv w w' \<Longrightarrow> walk_inv w (snd (getFileInfo w' p))"
      by (rule getFileInfo_ok(1))
    show "\<And>w' d es w2. walk_inv w w' \<Longrightarrow> admitted ig rs d \<Longrightarrow>
            readdir w' d = (Inr es, w2) \<Longrightarrow> \<forall>e \<in> set es. clean_name e"
      using walk_inv_names[OF assms(3)] by blast
    show "\<And>w' d e. walk_inv w w' \<Longrightarrow> admitted ig rs d \<Longrightarrow> clean_name e \<Longrightarrow>
            \<not> ig (relative (cwd w') rootPath (join d e)) \<Longrightarrow> admitted ig rs (join d e)"
      using stepG .
    show "\<And>w' p fi w2. walk_inv w w' \<Longrightarrow> admitted ig rs p \<Longrightarrow>
            getFileInfo w' p = (Inr fi, w2) \<Longrightarrow> admitted ig rs (fi_path fi)"
      using giR .
    show "Some ig = Some ig" ..
    show "rootPath = rootPath" ..
    show "walk_inv w w1" using I1 .
    show "admitted ig rs rootPath" using G0 .
  qed
  then have "\<forall>node. fst (getDirectoryTree topts rootPath d None rootPath w) = Inr node \<longrightarrow>
                 (\<forall>fi \<in> set (infos node). admitted ig rs (fi_path fi))"
    using L by (simp add: getDirectoryTree_top tree_ok_def)
  then have tree: "\<forall>node. fst (getDirectoryTree topts rootPath d None rootPath w) = Inr node \<longrightarrow>
            (\<forall>fi \<in> set (infos node). \<not> prefix (rs @ rel) (segments (fi_path fi)))"
    using final by blast
  show ?thesis using flat tree by simp
qed

lemma names_ok_demo: "names_ok demo_world"
  by (auto simp: names_ok_def demo_world_def clean_name_def split: if_splits)

lemma ignored_paths_are_pruned_on_the_small_file_system:
  "''/r'' = render [''r''] \<and> list_all clean_name [''r''] \<and> names_ok demo_world \<and>
   cache_paths_ok (metadataCache demo_world) \<and> [''skip''] \<noteq> [] \<and>
   fst (loadIgnoreMatcher demo_world ''/r'') (join_with ''/'' [''skip'']) \<and>
   list_all (\<lambda>fi. \<not> prefix ([''r''] @ [''skip'']) (segments (fi_path fi)))
     (fst (listFiles demo_world ''/r'' txt_options)) \<and>
   map fi_path (fst (listFiles demo_world ''/r'' txt_options)) = [''/r/a.txt''] \<and>
   (case fst (getDirectoryTree \<lparr>to_maxDepth = None, to_includeHidden = None\<rparr> ''/r'' 0 None ''/r''
               demo_world) of
      Inl e \<Rightarrow> True
    | Inr node \<Rightarrow>
        list_all (\<lambda>fi. \<not> prefix ([''r''] @ [''skip'']) (segments (fi_path fi))) (infos node))"
proof -
  have h1: "''/r'' = render [''r'']" by (simp add: render_def)
  have h2: "\<forall>s \<in> set [''r'']. clean_name s" by (simp add: clean_name_def)
  have h3: "names_ok demo_world" by (rule names_ok_demo)
  have h4: "cache_paths_ok (metadataCache demo_world)"
    by (simp add: cache_paths_ok_def demo_world_def LRUCache_new_def)
  have h5: "fst (loadIgnoreMatcher demo_world ''/r'') = fst (loadIgnoreMatcher demo_world ''/r'')" ..
  have h6: "[''skip''] \<noteq> []" by simp
  have h7: "fst (loadIgnoreMatcher demo_world ''/r'') (join_with ''/'' [''skip''])"
    by (simp add: loadIgnoreMatcher_def join_def demo_eval)
  note t = ignored_paths_are_pruned[OF h1 h2 h3 h4 h5 h6 h7,
      of txt_options "\<lparr>to_maxDepth = None, to_includeHidden = None\<rparr>" 0]
  from t have a: "list_all (\<lambda>fi. \<not> prefix ([''r''] @ [''skip'']) (segments (fi_path fi)))
     (fst (listFiles demo_world ''/r'' txt_options))"
    unfolding list_all_iff by blast
  from t have b: "(case fst (getDirectoryTree \<lparr>to_maxDepth = None, to_includeHidden = None\<rparr> ''/r'' 0 None ''/r''
               demo_world) of
      Inl e \<Rightarrow> True
    | Inr node \<Rightarrow>
        list_all (\<lambda>fi. \<not> prefix ([''r''] @ [''skip'']) (segments (fi_path fi))) (infos node))"
    unfolding list_all_iff by (auto split: sum.splits)
  have c: "map fi_path (fst (listFiles demo_world ''/r'' txt_options)) = [''/r/a.txt'']"
    by (simp add: walk_eval txt_options_def)
  show ?thesis using h1 h2 h3 h4 h6 h7 a b c by simp
qed


subsection \<open>A rule for directories only\<close>

text \<open>
  Claim C5. The ignore file of the root \<^verbatim>\<open>/r\<close> holds the rule \<^verbatim>\<open>skip/\<close>, and \<^verbatim>\<open>skip\<close> is a
  directory of the root: the rules match it, the matcher ignores the directory \<^verbatim>\<open>skip/\<close>.
  The walks ask the matcher about \<^verbatim>\<open>skip\<close>, the path without the separator, before they
  know that it is a directory, and the matcher does not ignore that path. So the
  directory is an entry of the flat listing and a node of the nested tree; only the file
  below it is left out.
\<close>

theorem C5_directory_only_rule_keeps_the_directory:
  "fst (loadIgnoreMatcher slash_world ''/r'') ''skip/'' \<and>
   \<not> fst (loadIgnoreMatcher slash_world ''/r'') ''skip'' \<and>
   fst (loadIgnoreMatcher slash_world ''/r'') ''skip/b.txt'' \<and>
   map (\<lambda>fi. (fi_path fi, fi_isDirectory fi)) (fst (listFiles slash_world ''/r'' demo_options)) =
     [(''/r/skip'', True), (''/r/a.txt'', False), (''/r/big.bin'', False)] \<and>
   map_sum id (map fi_path \<circ> infos)
     (fst (getDirectoryTree \<lparr>to_maxDepth = None, to_includeHidden = None\<rparr> ''/r'' 0 None ''/r''
            slash_world)) =
     Inr [''/r'', ''/r/skip'', ''/r/a.txt'', ''/r/big.bin'']"
proof -
  have m: "fst (loadIgnoreMatcher slash_world ''/r'') = ignore_names [''skip/'' @ [LF]]"
    by (simp add: loadIgnoreMatcher_def join_def slash_world_def demo_eval)
  have a: "ignore_names [''skip/'' @ [LF]] ''skip/'' \<and> \<not> ignore_names [''skip/'' @ [LF]] ''skip'' \<and>
           ignore_names [''skip/'' @ [LF]] ''skip/b.txt''"
    by (simp add: ignore_names_def rule_ignores_def LF_def)
  have b: "map (\<lambda>fi. (fi_path fi, fi_isDirectory fi)) (fst (listFiles slash_world ''/r'' demo_options)) =
     [(''/r/skip'', True), (''/r/a.txt'', False), (''/r/big.bin'', False)]"
    by (simp add: walk_eval slash_world_def demo_options_def ignore_names_def rule_ignores_def)
  have c: "map_sum id (map fi_path \<circ> infos)
     (fst (getDirectoryTree \<lparr>to_maxDepth = None, to_includeHidden = None\<rparr> ''/r'' 0 None ''/r''
            slash_world)) =
     Inr [''/r'', ''/r/skip'', ''/r/a.txt'', ''/r/big.bin'']"
    by (simp add: walk_eval slash_world_def getDirectoryTree.simps treeChildren.simps
        ignore_names_def rule_ignores_def)
  show ?thesis using m a b c by simp
qed

text \<open>
  With the rule \<^verbatim>\<open>skip\<close>, without the separator, the directory and the file below it are
  left out of the listing and of the tree.
\<close>

lemma plain_rule_prunes_the_directory:
  "map fi_path (fst (listFiles demo_world ''/r'' demo_options)) = [''/r/a.txt'', ''/r/big.bin''] \<and>
   map_sum id (map fi_path \<circ> infos)
     (fst (getDirectoryTree \<lparr>to_maxDepth = None, to_includeHidden = None\<rparr> ''/r'' 0 None ''/r''
            demo_world)) =
     Inr [''/r'', ''/r/a.txt'', ''/r/big.bin'']"
  by (simp add: walk_eval demo_options_def getDirectoryTree.simps treeChildren.simps)
subsection \<open>The tool \<^verbatim>\<open>read_files\<close>\<close>

lemma resolve_loop_reads: "reads (trace (snd (resolve_loop w fp roots))) = reads (trace w)"
proof (induction roots arbitrary: w)
  case Nil
  then show ?case by simp
next
  case (Cons root roots)
  show ?case
  proof (cases "validatePathAccess (cwd w) (normalize (resolve (cwd w) [root, fp])) [root]")
    case (Inl e)
    then show ?thesis using Cons.IH[of w] by (simp add: Let_def)
  next
    case (Inr withinRoot)
    obtain b w1 where pe: "pathExists w withinRoot = (b, w1)" by (cases "pathExists w withinRoot")
    then have r1: "reads (trace w1) = reads (trace w)"
      using pathExists_reads[of w withinRoot] by simp
    show ?thesis using Inr pe r1 Cons.IH[of w1] by (cases b) (simp_all add: Let_def)
  qed
qed

lemma resolveFilePath_reads: "reads (trace (snd (resolveFilePath w fp roots))) = reads (trace w)"
  using resolve_loop_reads[of w fp roots]
  by (auto simp: resolveFilePath_def split: prod.splits option.splits)

lemma read_loop_acc:
  "read_loop w params roots ps acc =
     (case read_loop w params roots ps [] of (rs, w') \<Rightarrow> (acc @ rs, w'))"
proof (induction ps arbitrary: w acc)
  case Nil
  then show ?case by simp
next
  case (Cons fp ps)
  obtain r w1 where one: "readSingleFile w fp params roots = (r, w1)"
    by (cases "readSingleFile w fp params roots")
  show ?case
  proof (cases r)
    case (Inl e)
    let ?x = "\<lparr>rr_path = fp, rr_content = None, rr_error = Some (message e)\<rparr>"
    show ?thesis
      using one Inl Cons.IH[of w1 "acc @ [?x]"] Cons.IH[of w1 "[?x]"]
      by (simp split: prod.splits)
  next
    case (Inr rfile)
    show ?thesis
      using one Inr Cons.IH[of w1 "acc @ [rfile]"] Cons.IH[of w1 "[rfile]"]
      by (simp split: prod.splits)
  qed
qed

lemma read_loop_append:
  "read_loop w params roots (ps @ qs) acc =
     (case read_loop w params roots ps acc of (rs, w') \<Rightarrow> read_loop w' params roots qs rs)"
  by (induction ps arbitrary: w acc) (auto split: prod.splits sum.splits)

lemma read_loop_length:
  "length (fst (read_loop w params roots ps acc)) = length acc + length ps"
  by (induction ps arbitrary: w acc) (auto split: prod.splits sum.splits)

text \<open>The entry of a path in the results is what reading that path gave, wherever it stands.\<close>

lemma read_loop_nth:
  assumes "read_loop w params roots (before @ gp # after) [] = (rs, w')"
    and "read_loop w params roots before [] = (rsa, wa)"
    and "readSingleFile wa gp params roots = (r, wb)"
  shows "rs ! length before =
           (case r of
              Inr file \<Rightarrow> file
            | Inl e \<Rightarrow> \<lparr>rr_path = gp, rr_content = None, rr_error = Some (message e)\<rparr>)"
proof -
  let ?x = "case r of
              Inr file \<Rightarrow> file
            | Inl e \<Rightarrow> \<lparr>rr_path = gp, rr_content = None, rr_error = Some (message e)\<rparr>"
  obtain rsb wc where rest: "read_loop wb params roots after [] = (rsb, wc)"
    by (cases "read_loop wb params roots after []")
  have "read_loop w params roots (before @ gp # after) [] = read_loop wa params roots (gp # after) rsa"
    using assms(2) by (simp add: read_loop_append)
  also have "\<dots> = read_loop wb params roots after (rsa @ [?x])"
    using assms(3) by (cases r) simp_all
  also have "\<dots> = ((rsa @ [?x]) @ rsb, wc)"
    using rest by (subst read_loop_acc) simp
  finally have rs: "rs = rsa @ ?x # rsb" using assms(1) by simp
  have "length rsa = length before"
    using read_loop_length[of w params roots before "[]"] assms(2) by simp
  then show ?thesis unfolding rs by (simp add: nth_append)
qed

text \<open>A file that is no directory, not larger than the limit, and readable, is read.\<close>

lemma readSingleFile_well_sized:
  assumes "resolveFilePath wa gp roots = (Inr vq, wb)"
    and "getFileInfo wb vq = (Inr fj, wc)"
    and "\<not> fi_isDirectory fj" and "fi_size fj \<le> maxFileSize params"
    and "readFileContent wc vq (startLine params) (endLine params) (encoding params) = (Inr content, wd)"
  shows "readSingleFile wa gp params roots =
           (Inr \<lparr>rr_path = display_path wd gp vq roots,
                 rr_content = Some (if showLineNumbers params
                                    then addLineNumbers content
                                           (case startLine params of
                                              None \<Rightarrow> 1 | Some s \<Rightarrow> if s = 0 then 1 else s)
                                    else content),
                 rr_error = None\<rparr>, wd)"
  using assms by (simp add: readSingleFile_def Let_def)

text \<open>
  Claim C9. In a batch that passed the checks of the handler, let the file \<open>fp\<close> resolve
  to a path whose metadata report a file larger than the limit. Then reading it fails
  with \<open>TooLarge\<close>, carrying the actual and the maximal size, and no content was read on
  the way. The handler does not fail: it returns one result for each path, and the
  failure is the entry of \<open>fp\<close>, whose message names both sizes, between the entries
  of the files before it and the entries of the files after it. Every other path of the
  batch, wherever it stands, that resolves to a file not larger than the limit whose
  content can be read, has an entry with that content and without an error.
\<close>

theorem C9_too_large_is_recorded_and_the_batch_goes_on:
  assumes "parseInput input = Inr params" and "\<not> invalid_range params"
    and "paths params = pre @ fp # post"
    and "read_loop w params roots pre [] = (rs1, w1)"
    and "resolveFilePath w1 fp roots = (Inr vp, w2)"
    and "getFileInfo w2 vp = (Inr fi, w3)"
    and "\<not> fi_isDirectory fi" and "fi_size fi > maxFileSize params"
    and "read_loop w3 params roots post [] = (rs2, w4)"
  shows "let entry = \<lparr>rr_path = fp, rr_content = None,
                        rr_error = Some (''File too large: '' @ show_int (fi_size fi) @
                                    '' bytes (max: '' @ show_int (maxFileSize params) @ '' bytes)'')\<rparr>
         in readSingleFile w1 fp params roots =
              (Inl (TooLarge (fi_size fi) (maxFileSize params)), w3) \<and>
            reads (trace w3) = reads (trace w1) \<and>
            readFiles_handler w input roots = (Inr (rs1 @ [entry] @ rs2), w4) \<and>
            length (rs1 @ [entry] @ rs2) = length (paths params) \<and>
            (\<forall>before gp after rsa wa vq wb fj wc content wd.
               paths params = before @ gp # after \<and>
               read_loop w params roots before [] = (rsa, wa) \<and>
               resolveFilePath wa gp roots = (Inr vq, wb) \<and>
               getFileInfo wb vq = (Inr fj, wc) \<and>
               \<not> fi_isDirectory fj \<and> fi_size fj \<le> maxFileSize params \<and>
               readFileContent wc vq (startLine params) (endLine params) (encoding params) =
                 (Inr content, wd) \<longrightarrow>
               (rs1 @ [entry] @ rs2) ! length before =
                 \<lparr>rr_path = display_path wd gp vq roots,
                  rr_content = Some (if showLineNumbers params
                                     then addLineNumbers content
                                            (case startLine params of
                                               None \<Rightarrow> 1 | Some s \<Rightarrow> if s = 0 then 1 else s)
                                     else content),
                  rr_error = None\<rparr>)"
proof -
  let ?entry = "\<lparr>rr_path = fp, rr_content = None,
                 rr_error = Some (message (TooLarge (fi_size fi) (maxFileSize params)))\<rparr>"
  have one: "readSingleFile w1 fp params roots =
               (Inl (TooLarge (fi_size fi) (maxFileSize params)), w3)"
    using assms(5-8) by (simp add: readSingleFile_def)
  have "reads (trace w2) = reads (trace w1)"
    using resolveFilePath_reads[of w1 fp roots] assms(5) by simp
  moreover have "reads (trace w3) = reads (trace w2)"
    using getFileInfo_reads[of w2 vp] assms(6) by simp
  ultimately have quiet: "reads (trace w3) = reads (trace w1)" by simp
  have "read_loop w params roots (pre @ fp # post) [] = read_loop w1 params roots (fp # post) rs1"
    using assms(4) by (simp add: read_loop_append)
  also have "\<dots> = read_loop w3 params roots post (rs1 @ [?entry])"
    using one by simp
  also have "\<dots> = ((rs1 @ [?entry]) @ rs2, w4)"
    using assms(9) by (subst read_loop_acc) simp
  finally have loop: "read_loop w params roots (pre @ fp # post) [] = (rs1 @ [?entry] @ rs2, w4)"
    by simp
  have handler: "readFiles_handler w input roots = (Inr (rs1 @ [?entry] @ rs2), w4)"
    using assms(1-3) loop by (simp add: readFiles_handler_def)
  have "length rs1 = length pre"
    using read_loop_length[of w params roots pre "[]"] assms(4) by simp
  moreover have "length rs2 = length post"
    using read_loop_length[of w3 params roots post "[]"] assms(9) by simp
  ultimately have len: "length (rs1 @ [?entry] @ rs2) = length (paths params)"
    using assms(3) by simp
  have others: "(rs1 @ [?entry] @ rs2) ! length before =
      \<lparr>rr_path = display_path wd gp vq roots,
       rr_content = Some (if showLineNumbers params
                          then addLineNumbers content
                                 (case startLine params of
                                    None \<Rightarrow> 1 | Some s \<Rightarrow> if s = 0 then 1 else s)
                          else content),
       rr_error = None\<rparr>"
    if "paths params = before @ gp # after"
      and "read_loop w params roots before [] = (rsa, wa)"
      and "resolveFilePath wa gp roots = (Inr vq, wb)"
      and "getFileInfo wb vq = (Inr fj, wc)"
      and "\<not> fi_isDirectory fj" and "fi_size fj \<le> maxFileSize params"
      and "readFileContent wc vq (startLine params) (endLine params) (encoding params) =
             (Inr content, wd)"
    for before gp after rsa wa vq wb fj wc content wd
  proof -
    have "read_loop w params roots (before @ gp # after) [] = (rs1 @ [?entry] @ rs2, w4)"
      using loop that(1) assms(3) by simp
    from read_loop_nth[OF this that(2) readSingleFile_well_sized[OF that(3-7)]]
    show ?thesis by simp
  qed
  have siblings: "\<forall>before gp after rsa wa vq wb fj wc content wd.
      paths params = before @ gp # after \<and>
      read_loop w params roots before [] = (rsa, wa) \<and>
      resolveFilePath wa gp roots = (Inr vq, wb) \<and>
      getFileInfo wb vq = (Inr fj, wc) \<and>
      \<not> fi_isDirectory fj \<and> fi_size fj \<le> maxFileSize params \<and>
      readFileContent wc vq (startLine params) (endLine params) (encoding params) =
        (Inr content, wd) \<longrightarrow>
      (rs1 @ [?entry] @ rs2) ! length before =
        \<lparr>rr_path = display_path wd gp vq roots,
         rr_content = Some (if showLineNumbers params
                            then addLineNumbers content
                                   (case startLine params of
                                      None \<Rightarrow> 1 | Some s \<Rightarrow> if s = 0 then 1 else s)
                            else content),
         rr_error = None\<rparr>"
    using others by blast
  show ?thesis using one quiet handler len siblings by (simp add: Let_def)
qed

theorem C9_too_large_is_recorded_and_the_batch_goes_on_witness:
  "fst (readFiles_handler demo_world demo_input [''/r'']) =
     Inr [\<lparr>rr_path = ''big.bin'', rr_content = None,
            rr_error = Some ''File too large: 2000000 bytes (max: 1024 bytes)''\<rparr>,
          \<lparr>rr_path = ''a.txt'', rr_content = Some (''1| x'' @ [CHR 0x0A] @ ''2| foo'' @ [CHR 0x0A] @ ''3| y''),
            rr_error = None\<rparr>] \<and>
   reads (trace (snd (readFiles_handler demo_world demo_input [''/r'']))) = [''/r/a.txt'']"
proof -
  let ?w2 = "snd (resolveFilePath demo_world ''big.bin'' [''/r''])"
  let ?w3 = "snd (getFileInfo ?w2 ''/r/big.bin'')"
  let ?fi = "\<lparr>fi_path = ''/r/big.bin'', fi_name = ''big.bin'', fi_size = 2000000,
              fi_modified = ''2024-01-01T00:00:00.000Z'', fi_isDirectory = False,
              fi_extension = Some ''bin''\<rparr>"
  let ?rs2 = "[\<lparr>rr_path = ''a.txt'', rr_content = Some (''1| x'' @ [CHR 0x0A] @ ''2| foo'' @ [CHR 0x0A] @ ''3| y''),
            rr_error = None\<rparr>]"
  let ?w4 = "snd (read_loop ?w3 demo_params [''/r''] [''a.txt''] [])"
  have h1: "parseInput demo_input = Inr demo_params"
    by (simp add: parseInput_def input_paths_def num_prop_def demo_input_def demo_params_def isValidEncoding_def)
  have h2: "\<not> invalid_range demo_params" by (simp add: invalid_range_def demo_params_def)
  have h3: "paths demo_params = [] @ ''big.bin'' # [''a.txt'']" by (simp add: demo_params_def)
  have h4: "read_loop demo_world demo_params [''/r''] [] [] = ([], demo_world)" by simp
  have "fst (resolveFilePath demo_world ''big.bin'' [''/r'']) = Inr ''/r/big.bin''"
    by (simp add: resolveFilePath_def demo_eval)
  then have h5: "resolveFilePath demo_world ''big.bin'' [''/r''] = (Inr ''/r/big.bin'', ?w2)"
    by (simp add: prod_eq_iff)
  have "fst (getFileInfo ?w2 ''/r/big.bin'') = Inr ?fi"
    by (simp add: resolveFilePath_def getFileInfo_def demo_eval basename_def extname_def)
  then have h6: "getFileInfo ?w2 ''/r/big.bin'' = (Inr ?fi, ?w3)"
    by (simp add: prod_eq_iff)
  have h7: "\<not> fi_isDirectory ?fi" by simp
  have h8: "fi_size ?fi > maxFileSize demo_params" by (simp add: demo_params_def)
  have "fst (read_loop ?w3 demo_params [''/r''] [''a.txt''] []) = ?rs2"
    by (simp add: tool_eval)
  then have h9: "read_loop ?w3 demo_params [''/r''] [''a.txt''] [] = (?rs2, ?w4)"
    by (simp add: prod_eq_iff)
  note t = C9_too_large_is_recorded_and_the_batch_goes_on[OF h1 h2 h3 h4 h5 h6 h7 h8 h9]
  have sz: "show_int (fi_size ?fi) = ''2000000''" "show_int (maxFileSize demo_params) = ''1024''" by (simp_all add: demo_params_def show_int_def show_nat.simps)
  have r: "reads (trace ?w4) = [''/r/a.txt'']"
    by (simp add: tool_eval)
  \<comment> \<open>the sibling \<^verbatim>\<open>a.txt\<close>, of 7 bytes, through the last part of the theorem\<close>
  let ?c = "''x'' @ [CHR 0x0A] @ ''foo'' @ [CHR 0x0A] @ ''y''"
  let ?fa = "\<lparr>fi_path = ''/r/a.txt'', fi_name = ''a.txt'', fi_size = 7,
              fi_modified = ''2024-01-01T00:00:00.000Z'', fi_isDirectory = False,
              fi_extension = Some ''txt''\<rparr>"
  let ?rsa = "fst (read_loop demo_world demo_params [''/r''] [''big.bin''] [])"
  let ?wa = "snd (read_loop demo_world demo_params [''/r''] [''big.bin''] [])"
  let ?wb = "snd (resolveFilePath ?wa ''a.txt'' [''/r''])"
  let ?wc = "snd (getFileInfo ?wb ''/r/a.txt'')"
  let ?wd = "snd (readFileContent ?wc ''/r/a.txt'' (startLine demo_params) (endLine demo_params)
                    (encoding demo_params))"
  have k1: "paths demo_params = [''big.bin''] @ ''a.txt'' # []" by (simp add: demo_params_def)
  have k2: "read_loop demo_world demo_params [''/r''] [''big.bin''] [] = (?rsa, ?wa)" by simp
  have "fst (resolveFilePath ?wa ''a.txt'' [''/r'']) = Inr ''/r/a.txt''"
    by (simp add: tool_eval)
  then have k3: "resolveFilePath ?wa ''a.txt'' [''/r''] = (Inr ''/r/a.txt'', ?wb)"
    by (simp add: prod_eq_iff)
  have "fst (getFileInfo ?wb ''/r/a.txt'') = Inr ?fa"
    by (simp add: tool_eval)
  then have k4: "getFileInfo ?wb ''/r/a.txt'' = (Inr ?fa, ?wc)"
    by (simp add: prod_eq_iff)
  have k5: "\<not> fi_isDirectory ?fa" by simp
  have k6: "fi_size ?fa \<le> maxFileSize demo_params" by (simp add: demo_params_def)
  have "fst (readFileContent ?wc ''/r/a.txt'' (startLine demo_params) (endLine demo_params)
               (encoding demo_params)) = Inr ?c"
    by (simp add: tool_eval)
  then have k7: "readFileContent ?wc ''/r/a.txt'' (startLine demo_params) (endLine demo_params)
               (encoding demo_params) = (Inr ?c, ?wd)"
    by (simp add: prod_eq_iff)
  from t k1 k2 k3 k4 k5 k6 k7
  have sibling: "([] @ [\<lparr>rr_path = ''big.bin'', rr_content = None,
                         rr_error = Some (''File too large: '' @ show_int (fi_size ?fi) @
                                    '' bytes (max: '' @ show_int (maxFileSize demo_params) @ '' bytes)'')\<rparr>]
                    @ ?rs2) ! length [''big.bin''] =
      \<lparr>rr_path = display_path ?wd ''a.txt'' ''/r/a.txt'' [''/r''],
       rr_content = Some (if showLineNumbers demo_params
                          then addLineNumbers ?c
                                 (case startLine demo_params of
                                    None \<Rightarrow> 1 | Some s \<Rightarrow> if s = 0 then 1 else s)
                          else ?c),
       rr_error = None\<rparr>"
    unfolding Let_def by blast
  show ?thesis using t sz r sibling by (simp add: Let_def)
qed


text \<open>
  Claim C10. When the list of paths taken from the input is empty or longer than ten,
  the handler fails, and the state is the one it started from: no path was validated,
  resolved or read, and there are no results. A list of one to ten paths is accepted.
\<close>

theorem C10_between_one_and_ten_paths:
  assumes "input_paths input = Inr ps"
  shows "(length ps = 0 \<longrightarrow> readFiles_handler w input roots = (Inl NoPaths, w)) \<and>
         (length ps > 10 \<longrightarrow> readFiles_handler w input roots = (Inl TooManyPaths, w)) \<and>
         (1 \<le> length ps \<and> length ps \<le> 10 \<longrightarrow>
            (\<exists>params. parseInput input = Inr params \<and> paths params = ps))"
  using assms by (auto simp: readFiles_handler_def parseInput_def)

theorem C10_between_one_and_ten_paths_witness:
  "input_paths (JObj [(''paths'', JArr [JNum 3])]) = Inr [] \<and>
   readFiles_handler demo_world (JObj [(''paths'', JArr [JNum 3])]) [''/r''] = (Inl NoPaths, demo_world) \<and>
   input_paths eleven_paths =
     Inr [''notes1.md'', ''notes2.md'', ''notes3.md'', ''notes4.md'', ''notes5.md'', ''notes6.md'',
          ''notes7.md'', ''notes8.md'', ''notes9.md'', ''notes10.md'', ''notes11.md''] \<and>
   readFiles_handler demo_world eleven_paths [''/r''] = (Inl TooManyPaths, demo_world) \<and>
   input_paths demo_input = Inr [''big.bin'', ''a.txt''] \<and>
   (\<exists>params. parseInput demo_input = Inr params \<and> paths params = [''big.bin'', ''a.txt''])"
proof -
  have h1: "input_paths (JObj [(''paths'', JArr [JNum 3])]) = Inr []"
    by (simp add: input_paths_def)
  have h2: "input_paths eleven_paths =
     Inr [''notes1.md'', ''notes2.md'', ''notes3.md'', ''notes4.md'', ''notes5.md'', ''notes6.md'',
          ''notes7.md'', ''notes8.md'', ''notes9.md'', ''notes10.md'', ''notes11.md'']"
    by (simp add: input_paths_def eleven_paths_def)
  have h3: "input_paths demo_input = Inr [''big.bin'', ''a.txt'']"
    by (simp add: input_paths_def demo_input_def)
  show ?thesis
    using h1 h2 h3
      C10_between_one_and_ten_paths[OF h1, of demo_world "[''/r'']"]
      C10_between_one_and_ten_paths[OF h2, of demo_world "[''/r'']"]
      C10_between_one_and_ten_paths[OF h3, of demo_world "[''/r'']"]
    by simp
qed

subsection \<open>The scenarios of the specification\<close>

text \<open>
  The search for \<^verbatim>\<open>foo\<close> with one line of context finds the one match in \<^verbatim>\<open>a.txt\<close>; the
  file below the ignored directory does not appear, and the file that cannot be read
  is skipped.
\<close>

lemma scenario_search:
  "fst (searchInFiles demo_world [''/r'']
          \<lparr>so_query = ''foo'', so_filePattern = None, so_caseSensitive = None,
           so_wholeWord = None, so_contextLines = Some 1, so_maxDepth = None\<rparr>) =
     [\<lparr>sr_file = ''/r/a.txt'', sr_line = 2, sr_content = ''foo'',
       sr_before = [''x''], sr_after = [''y'']\<rparr>]"
  by (simp add: searchInFiles_def searchInDirectory_def searchInFile_def search_content_def
      js_slice_def walk_eval)

text \<open>A range whose start lies behind its end is refused before anything is read.\<close>

lemma scenario_invalid_range:
  "readFiles_handler demo_world
     (JObj [(''path'', JStr ''/r/a.txt''), (''startLine'', JNum 5), (''endLine'', JNum 3)]) [''/r''] =
     (Inl InvalidRange, demo_world)"
  by (simp add: readFiles_handler_def parseInput_def input_paths_def num_prop_def
      isValidEncoding_def invalid_range_def)


end
